theory Spec2Isabelle
  imports Complex_Main "HOL-Library.Char_ord" "HOL-Library.List_Lexorder" "HOL-Library.AList"
    "HOL-Library.Multiset"
begin

section \<open>Device assignment of interface elements: the optimizer's formulation pipeline\<close>

text \<open>
  A shallow embedding of \<^verbatim>\<open>src/optimization/properties.py\<close> and
  \<^verbatim>\<open>src/optimization/optimize_device_assignment.py\<close>.
  Python numbers that the optimizer divides, normalises or hands to the solver are
  modelled as \<^typ>\<open>real\<close> (an idealisation of numpy's float64); the four capability
  levels of a Properties value are \<^typ>\<open>int\<close>. Every exception the code can raise is
  a value of \<open>error\<close>.
\<close>

datatype error = AssertionError | ValueError | ZeroDivisionError | KeyError

subsection \<open>Properties (properties.py)\<close>

record properties =
  visual_display :: int
  text_input :: int
  touch_pointing :: int
  mouse_pointing :: int

text \<open>The constructor: its four assertions, then the four field assignments.\<close>

definition Properties_init :: "int \<Rightarrow> int \<Rightarrow> int \<Rightarrow> int \<Rightarrow> error + properties" where
  "Properties_init vd ti tp mp =
     (if \<not> (0 \<le> vd \<and> vd \<le> 5) then Inl AssertionError
      else if \<not> (0 \<le> ti \<and> ti \<le> 5) then Inl AssertionError
      else if \<not> (0 \<le> tp \<and> tp \<le> 5) then Inl AssertionError
      else if \<not> (0 \<le> mp \<and> mp \<le> 5) then Inl AssertionError
      else Inr \<lparr>visual_display = vd, text_input = ti, touch_pointing = tp, mouse_pointing = mp\<rparr>)"

definition dot :: "properties \<Rightarrow> properties \<Rightarrow> int" where
  "dot self other =
     visual_display self * visual_display other +
     text_input self * text_input other +
     touch_pointing self * touch_pointing other +
     mouse_pointing self * mouse_pointing other"

subsection \<open>Domain objects\<close>

text \<open>
  Modelled from the spec: the classes User, Element and Device are not in src/. The
  records below carry the attributes that the optimizer reads (\<^verbatim>\<open>name\<close>,
  \<^verbatim>\<open>importance\<close>, \<^verbatim>\<open>min_width\<close>, \<^verbatim>\<open>min_height\<close>, \<^verbatim>\<open>_min_area\<close>,
  \<^verbatim>\<open>_max_area\<close>, \<^verbatim>\<open>width\<close>, \<^verbatim>\<open>height\<close>, \<^verbatim>\<open>_area\<close>, and \<^verbatim>\<open>users\<close> of a
  device, here \<open>device_users\<close>), the
  Properties vector the spec gives to elements and devices, and the attribute
  \<^verbatim>\<open>_optimizer_size\<close> that the optimizer attaches to an element (absent until then,
  hence an option). A user's \<^verbatim>\<open>importance\<close> is a dict from element names to override
  values: an association list with distinct keys. Python compares and hashes these
  objects by identity; the model compares records by value, so distinct objects are
  taken to differ in some attribute (the spec makes the name a unique key).
\<close>

record user =
  name :: string
  importance :: "(string \<times> real) list"

record element =
  name :: string
  importance :: real
  min_width :: real
  min_height :: real
  min_area :: real
  max_area :: real
  properties :: properties
  optimizer_size :: "(string \<times> real) list option"

record device =
  name :: string
  width :: real
  height :: real
  area :: real
  properties :: properties
  device_users :: "user list"

text \<open>
  Modelled from the spec: Device.calculate_compatibility is not in src/. The spec says
  that the default metric, the one \<^verbatim>\<open>pre_process_objects\<close> selects with
  \<^verbatim>\<open>compatibility_metric = 'dot'\<close>, is the dot product of the device's Properties
  with the element's.
\<close>

definition calculate_compatibility :: "device \<Rightarrow> element \<Rightarrow> real" where
  "calculate_compatibility dv el = of_int (dot (device.properties dv) (element.properties el))"

definition valid_properties :: "properties \<Rightarrow> bool" where
  "valid_properties p \<longleftrightarrow>
     Properties_init (visual_display p) (text_input p) (touch_pointing p) (mouse_pointing p) = Inr p"

subsection \<open>What the interpreter and the libraries decide\<close>

text \<open>
  The optimizer depends on a few things that are not in its source. They are the fields
  of an environment:
  \<^item> \<open>user_has_access\<close>: Element.user_has_access (not in src/);
  \<^item> \<open>compatibility\<close>: Device.calculate_compatibility under the metric \<^verbatim>\<open>'dot'\<close>;
  \<^item> \<open>str_slot\<close> and \<open>key_slot\<close>: the order in which a dict enumerates its keys. The
    language leaves that order to the interpreter: CPython 2, which the code is written
    for (\<^verbatim>\<open>iteritems\<close>), walks the slots of the hash table; CPython from 3.7 on keeps
    the insertion order. A dict is modelled as the list of its items in insertion
    order, and its enumeration is that list stably sorted by the slot of each key, so
    a constant slot function gives the insertion order and a suitable one gives any
    other order;
  \<^item> \<open>solve\<close>: \<^verbatim>\<open>model.optimize()\<close> of the external solver, with the status it
    reports and the values it gives to the variables;
  \<^item> \<open>start_time\<close> and \<open>end_time\<close>: the two readings of \<^verbatim>\<open>time.time()\<close>.
\<close>

datatype var =
    X nat nat | S nat nat
  | User_num_elements nat nat | User_has_element nat nat | User_num_replicated_elements nat nat
  | User_num_unique_elements nat | Min_ratio_unique_elements

datatype vtype = BINARY | SEMIINT | CONTINUOUS

datatype sense = LE | GE | EQ

type_synonym linexpr = "(real \<times> var) list \<times> real"

datatype constr =
    Constr linexpr sense linexpr string
  | GenConstrIndicator var bool linexpr sense linexpr

record model =
  vars :: "(var \<times> vtype) list"
  constrs :: "constr list"
  objectives :: "(linexpr \<times> real) list"

datatype status =
    LOADED | OPTIMAL | INFEASIBLE | INF_OR_UNBD | UNBOUNDED | CUTOFF | ITERATION_LIMIT
  | NODE_LIMIT | TIME_LIMIT | SOLUTION_LIMIT | INTERRUPTED | NUMERIC | SUBOPTIMAL

record environment =
  user_has_access :: "element \<Rightarrow> user \<Rightarrow> bool"
  compatibility :: "device \<Rightarrow> element \<Rightarrow> real"
  str_slot :: "string \<Rightarrow> nat"
  key_slot :: "nat \<times> nat \<Rightarrow> nat"
  solve :: "model \<Rightarrow> status \<times> (var \<Rightarrow> real)"
  start_time :: real
  end_time :: real

definition dict_items :: "('k \<Rightarrow> nat) \<Rightarrow> ('k \<times> 'v) list \<Rightarrow> ('k \<times> 'v) list" where
  "dict_items slot d = sort_key (\<lambda>kv. slot (fst kv)) d"

subsection \<open>Exceptions and iteration that can raise\<close>

fun bind_error :: "error + 'a \<Rightarrow> ('a \<Rightarrow> error + 'b) \<Rightarrow> error + 'b" where
  "bind_error (Inl err) f = Inl err"
| "bind_error (Inr a) f = f a"

fun for_each :: "'i list \<Rightarrow> ('i \<Rightarrow> 's \<Rightarrow> error + 's) \<Rightarrow> 's \<Rightarrow> error + 's" where
  "for_each [] body s = Inr s"
| "for_each (i # rest) body s = bind_error (body i s) (for_each rest body)"

text \<open>\<^verbatim>\<open>list.index\<close>: the position of the first equal item, ValueError when there is none.\<close>

fun index_of :: "'a list \<Rightarrow> 'a \<Rightarrow> error + nat" where
  "index_of [] x = Inl ValueError"
| "index_of (y # ys) x = (if y = x then Inr 0 else bind_error (index_of ys x) (\<lambda>i. Inr (Suc i)))"

subsection \<open>Dense arrays\<close>

text \<open>
  A numpy array of two dimensions is a function of the row and the column; its shape is
  kept by the code that walks it. Every index the optimizer uses comes from
  \<^verbatim>\<open>enumerate\<close>, \<^verbatim>\<open>list.index\<close> or \<^verbatim>\<open>element_name_index\<close>, hence is in range.
\<close>

type_synonym 'a matrix = "nat \<Rightarrow> nat \<Rightarrow> 'a"

definition set_cell :: "'a matrix \<Rightarrow> nat \<Rightarrow> nat \<Rightarrow> 'a \<Rightarrow> 'a matrix" where
  "set_cell m i j v = m(i := (m i)(j := v))"

definition column :: "'a matrix \<Rightarrow> nat \<Rightarrow> nat \<Rightarrow> 'a list" where
  "column m n j = map (\<lambda>i. m i j) [0..<n]"

definition set_column :: "'a matrix \<Rightarrow> nat \<Rightarrow> 'a list \<Rightarrow> 'a matrix" where
  "set_column m j v = (\<lambda>i j'. if j' = j \<and> i < length v then v ! i else m i j')"

definition count_nonzero :: "bool list \<Rightarrow> nat" where
  "count_nonzero v = length (filter (\<lambda>b. b) v)"

subsection \<open>Preprocessing (pre_process_objects)\<close>

text \<open>
  The nested function \<^verbatim>\<open>normalized\<close>. \<^verbatim>\<open>vector.max()\<close> raises ValueError on an array
  of size zero.
\<close>

definition normalized :: "real list \<Rightarrow> error + real list" where
  "normalized vector =
     (if vector = [] then Inl ValueError
      else
        let v_max = Max (set vector);
            v_min = 0;
            v_dif = v_max - v_min;
            vector = map (\<lambda>x. x - v_min) vector
        in if v_dif > 1 / 1000000 then Inr (map (\<lambda>x. x / v_dif) vector) else Inr vector)"

text \<open>\<^verbatim>\<open>m[:, j] = normalized(m[:, j])\<close> for a matrix of \<open>n\<close> rows.\<close>

definition normalize_column :: "nat \<Rightarrow> nat \<Rightarrow> real matrix \<Rightarrow> error + real matrix" where
  "normalize_column n j m = bind_error (normalized (column m n j)) (\<lambda>v. Inr (set_column m j v))"

text \<open>
  \<^verbatim>\<open>dict((element.name, i) for i, element in enumerate(elements))\<close>: of two elements
  of one name the later one keeps the entry.
\<close>

definition element_name_index :: "element list \<Rightarrow> string \<Rightarrow> nat option" where
  "element_name_index elements =
     map_of (rev (zip (map element.name elements) [0..<length elements]))"

text \<open>Lines 302 to 308: the default importances, then each user's overrides.\<close>

definition user_importance_column ::
  "environment \<Rightarrow> element list \<Rightarrow> user list \<Rightarrow> nat \<Rightarrow> real matrix \<Rightarrow> real matrix" where
  "user_importance_column env elements users u element_user_imp =
     fold (\<lambda>(element_name, imp) m.
             case element_name_index elements element_name of
               None \<Rightarrow> m
             | Some i \<Rightarrow> set_cell m i u imp)
          (dict_items (str_slot env) (user.importance (users ! u)))
          (set_column element_user_imp u (map element.importance elements))"

definition initial_element_user_imp ::
  "environment \<Rightarrow> element list \<Rightarrow> user list \<Rightarrow> real matrix" where
  "initial_element_user_imp env elements users =
     fold (user_importance_column env elements users) [0..<length users] (\<lambda>e u. 0)"

text \<open>Lines 311 to 315: the compatibility of every pair, each device's column normalised.\<close>

definition compatibility_column ::
  "environment \<Rightarrow> element list \<Rightarrow> device list \<Rightarrow> nat \<Rightarrow> real matrix \<Rightarrow> error + real matrix" where
  "compatibility_column env elements devices d element_device_comp =
     normalize_column (length elements) d
       (fold (\<lambda>e m. set_cell m e d (compatibility env (devices ! d) (elements ! e)))
             [0..<length elements] element_device_comp)"

text \<open>Lines 319 to 322: \<^verbatim>\<open>users.index(user)\<close> raises when a device names a user who is not in the list.\<close>

definition device_access_column ::
  "device list \<Rightarrow> user list \<Rightarrow> nat \<Rightarrow> bool matrix \<Rightarrow> error + bool matrix" where
  "device_access_column devices users d user_device_access =
     for_each (device_users (devices ! d))
       (\<lambda>user m. bind_error (index_of users user) (\<lambda>i. Inr (set_cell m i d True)))
       user_device_access"

text \<open>Lines 325 to 332, on the pair of \<^verbatim>\<open>user_element_access\<close> and \<^verbatim>\<open>element_user_imp\<close>.\<close>

definition element_access_cell ::
  "environment \<Rightarrow> element list \<Rightarrow> user list \<Rightarrow> nat \<Rightarrow> nat \<Rightarrow>
   bool matrix \<times> real matrix \<Rightarrow> bool matrix \<times> real matrix" where
  "element_access_cell env elements users e u st =
     (case st of (user_element_access, element_user_imp) \<Rightarrow>
        if user_has_access env (elements ! e) (users ! u)
        then (set_cell user_element_access u e True, element_user_imp)
        else (user_element_access, set_cell element_user_imp e u 0))"

text \<open>Lines 339 to 342: an importance below 1e-6 takes the access away.\<close>

definition revoke_unimportant :: "real matrix \<Rightarrow> nat \<Rightarrow> nat \<Rightarrow> bool matrix \<Rightarrow> bool matrix" where
  "revoke_unimportant element_user_imp e u user_element_access =
     (if element_user_imp e u < 1 / 1000000 then set_cell user_element_access u e False
      else user_element_access)"

text \<open>Lines 345 to 349: the matrix product, each device's column divided by its number of users.\<close>

definition matrix_product :: "nat \<Rightarrow> real matrix \<Rightarrow> bool matrix \<Rightarrow> real matrix" where
  "matrix_product n a b = (\<lambda>e d. sum_list (map (\<lambda>u. a e u * of_bool (b u d)) [0..<n]))"

definition divide_by_users :: "nat \<Rightarrow> nat \<Rightarrow> bool matrix \<Rightarrow> nat \<Rightarrow> real matrix \<Rightarrow> real matrix" where
  "divide_by_users num_elements num_users user_device_access d element_device_imp =
     (let num_users_on_device = count_nonzero (column user_device_access num_users d)
      in if num_users_on_device > 0
         then set_column element_device_imp d
                (map (\<lambda>x. x / real num_users_on_device) (column element_device_imp num_elements d))
         else element_device_imp)"

text \<open>
  Lines 354 to 359, the body of the refinement loop for one device \<open>d\<close> and one element
  \<open>e\<close>, on the pair of \<^verbatim>\<open>element_device_imp\<close> and \<^verbatim>\<open>user_element_access\<close>.
\<close>

definition refine_pair ::
  "nat \<Rightarrow> bool matrix \<Rightarrow> nat \<Rightarrow> nat \<Rightarrow> real matrix \<times> bool matrix \<Rightarrow> real matrix \<times> bool matrix" where
  "refine_pair num_users user_device_access d e st =
     (case st of (element_device_imp, user_element_access) \<Rightarrow>
        let comp = map2 (\<and>) (column user_element_access num_users e)
                             (column user_device_access num_users d)
        in if count_nonzero (column user_device_access num_users d) > 1 \<and> count_nonzero comp = 1
           then (set_cell element_device_imp e d 0,
                 fold (\<lambda>(u, v) m. if v = False then set_cell m u e False else m)
                      (enumerate 0 comp) user_element_access)
           else (element_device_imp, user_element_access))"

definition refine_device ::
  "nat \<Rightarrow> nat \<Rightarrow> bool matrix \<Rightarrow> nat \<Rightarrow> real matrix \<times> bool matrix \<Rightarrow>
   error + real matrix \<times> bool matrix" where
  "refine_device num_elements num_users user_device_access d st =
     (case fold (refine_pair num_users user_device_access d) [0..<num_elements] st of
        (element_device_imp, user_element_access) \<Rightarrow>
          bind_error (normalize_column num_elements d element_device_imp)
            (\<lambda>m. Inr (m, user_element_access)))"

record matrices =
  element_user_imp :: "real matrix"
  element_device_imp :: "real matrix"
  element_device_comp :: "real matrix"
  user_device_access :: "bool matrix"
  user_element_access :: "bool matrix"

definition pre_process_objects ::
  "environment \<Rightarrow> element list \<Rightarrow> device list \<Rightarrow> user list \<Rightarrow> error + matrices" where
  "pre_process_objects env elements devices users =
     (let num_elements = length elements;
          num_devices = length devices;
          num_users = length users;
          eui0 = initial_element_user_imp env elements users
      in
      bind_error (for_each [0..<num_devices] (compatibility_column env elements devices) (\<lambda>e d. 0))
        (\<lambda>edc.
      bind_error (for_each [0..<num_devices] (device_access_column devices users) (\<lambda>u d. False))
        (\<lambda>uda.
      case fold (\<lambda>e. fold (element_access_cell env elements users e) [0..<num_users])
                [0..<num_elements] (\<lambda>u e. False, eui0) of
        (uea0, eui1) \<Rightarrow>
      let eui2 = (\<lambda>e u. eui1 e u * of_bool (uea0 u e)) in
      bind_error (for_each [0..<num_users] (normalize_column num_elements) eui2)
        (\<lambda>eui.
      let uea1 = fold (\<lambda>e. fold (revoke_unimportant eui e) [0..<num_users]) [0..<num_elements] uea0;
          edi0 = fold (divide_by_users num_elements num_users uda) [0..<num_devices]
                      (matrix_product num_users eui uda)
      in
      bind_error (for_each [0..<num_devices] (refine_device num_elements num_users uda) (edi0, uea1))
        (\<lambda>(edi, uea).
      Inr \<lparr>element_user_imp = eui, element_device_imp = edi, element_device_comp = edc,
           user_device_access = uda, user_element_access = uea\<rparr>)))))"

subsection \<open>The model (optimize, lines 64 to 217)\<close>

text \<open>Lines 71 to 76: one binary \<open>x\<close> and one semi-integer \<open>s\<close> for every element and device.\<close>

definition x_keys :: "nat \<Rightarrow> nat \<Rightarrow> (nat \<times> nat) list" where
  "x_keys num_elements num_devices = List.product [0..<num_elements] [0..<num_devices]"

definition assignment_vars :: "nat \<Rightarrow> nat \<Rightarrow> (var \<times> vtype) list" where
  "assignment_vars num_elements num_devices =
     concat (map (\<lambda>(e, d). [(X e d, BINARY), (S e d, SEMIINT)]) (x_keys num_elements num_devices))"

definition quicksum :: "var list \<Rightarrow> linexpr" where
  "quicksum vs = (map (\<lambda>v. (1, v)) vs, 0)"

definition const :: "real \<Rightarrow> linexpr" where
  "const c = ([], c)"

text \<open>Lines 79 to 95: capacity, minimal size, and the three indicator constraints.\<close>

definition size_constraints :: "element list \<Rightarrow> device list \<Rightarrow> nat \<Rightarrow> nat \<Rightarrow> constr list" where
  "size_constraints elements devices d e =
     (let element = elements ! e; device = devices ! d in
      (if min_width element > width device \<or> min_height element > height device
       then [Constr (quicksum [X e d]) EQ (const 0)
               (''min_size_exceeds_constraint_'' @ element.name element @ ''_on_'' @ device.name device)]
       else []) @
      [GenConstrIndicator (X e d) False (quicksum [S e d]) EQ (const 0),
       GenConstrIndicator (X e d) True (quicksum [S e d]) GE (const (min_area element)),
       GenConstrIndicator (X e d) True (quicksum [S e d]) LE
         (const (min (max_area element) (area device)))])"

definition device_constraints :: "element list \<Rightarrow> device list \<Rightarrow> nat \<Rightarrow> constr list" where
  "device_constraints elements devices d =
     Constr (quicksum (map (\<lambda>e. S e d) [0..<length elements])) LE (const (area (devices ! d)))
       (''capacity_constraint_'' @ device.name (devices ! d))
     # concat (map (size_constraints elements devices d) [0..<length elements])"

text \<open>
  Lines 103 to 108. \<^verbatim>\<open>np.dot\<close> of two boolean vectors is the disjunction of the
  conjunctions of their entries.
\<close>

definition np_dot :: "bool list \<Rightarrow> bool list \<Rightarrow> bool" where
  "np_dot a b = list_ex (\<lambda>v. v) (map2 (\<and>) a b)"

definition privacy_cell :: "nat \<Rightarrow> matrices \<Rightarrow> nat \<Rightarrow> nat \<Rightarrow> bool matrix \<Rightarrow> bool matrix" where
  "privacy_cell num_users mats d e element_device_access =
     (if \<not> np_dot (column (user_device_access mats) num_users d)
                   (column (user_element_access mats) num_users e)
      then set_cell element_device_access e d False
      else element_device_access)"

definition initial_element_device_access :: "nat \<Rightarrow> nat \<Rightarrow> nat \<Rightarrow> matrices \<Rightarrow> bool matrix" where
  "initial_element_device_access num_elements num_devices num_users mats =
     fold (\<lambda>d. fold (privacy_cell num_users mats d) [0..<num_elements]) [0..<num_devices]
          (\<lambda>e d. True)"

text \<open>
  Lines 112 to 129, on the pair of \<^verbatim>\<open>element_device_access\<close> and the constraints added
  so far; \<open>prune\<close> below runs them after the constraints of lines 79 to 95.
\<close>

definition forbid :: "nat \<Rightarrow> nat \<Rightarrow> string \<Rightarrow> constr" where
  "forbid e d constr_name = Constr (quicksum [X e d]) EQ (const 0) constr_name"

definition pruning_cell ::
  "element list \<Rightarrow> device list \<Rightarrow> matrices \<Rightarrow> nat \<Rightarrow> nat \<Rightarrow>
   bool matrix \<times> constr list \<Rightarrow> bool matrix \<times> constr list" where
  "pruning_cell elements devices mats d e st =
     (case st of (element_device_access, cs) \<Rightarrow>
        let pair_name = element.name (elements ! e) @ ''_'' @ device.name (devices ! d) in
        if element_device_access e d = False
        then (element_device_access, cs @ [forbid e d (''privacy_'' @ pair_name)])
        else if element_device_imp mats e d < 1 / 100000
        then (set_cell element_device_access e d False,
              cs @ [forbid e d (''zero_importance_'' @ pair_name)])
        else if element_device_comp mats e d < 1 / 100000
        then (set_cell element_device_access e d False,
              cs @ [forbid e d (''zero_compatibility_'' @ pair_name)])
        else (element_device_access, cs))"

text \<open>Lines 132 to 136.\<close>

definition orphan_constraints ::
  "nat \<Rightarrow> device list \<Rightarrow> bool matrix \<Rightarrow> nat \<Rightarrow> constr list" where
  "orphan_constraints num_elements devices element_device_access d =
     (if \<not> list_ex (\<lambda>v. v) (column element_device_access num_elements d)
      then [Constr (quicksum (map (\<lambda>e. X e d) [0..<num_elements])) EQ (const 0)
              (''no_element_constraint_'' @ device.name (devices ! d))]
      else [])"

text \<open>Lines 144 to 172: the variables and constraints of coverage.\<close>

definition user_elements :: "nat \<Rightarrow> matrices \<Rightarrow> nat \<Rightarrow> nat list" where
  "user_elements num_elements mats u = filter (\<lambda>e. user_element_access mats u e) [0..<num_elements]"

definition user_devices :: "nat \<Rightarrow> matrices \<Rightarrow> nat \<Rightarrow> nat list" where
  "user_devices num_devices mats u = filter (\<lambda>d. user_device_access mats u d) [0..<num_devices]"

definition coverage_vars :: "nat \<Rightarrow> matrices \<Rightarrow> nat \<Rightarrow> (var \<times> vtype) list" where
  "coverage_vars num_elements mats u =
     concat (map (\<lambda>e. [(User_num_elements u e, SEMIINT), (User_has_element u e, SEMIINT),
                        (User_num_replicated_elements u e, SEMIINT)])
                 (user_elements num_elements mats u))
     @ [(User_num_unique_elements u, SEMIINT)]"

definition coverage_constraints :: "nat \<Rightarrow> nat \<Rightarrow> matrices \<Rightarrow> nat \<Rightarrow> constr list" where
  "coverage_constraints num_elements num_devices mats u =
     concat (map (\<lambda>e.
        [Constr (quicksum [User_num_elements u e]) EQ
           (quicksum (map (\<lambda>d. X e d) (user_devices num_devices mats u))) [],
         Constr (quicksum [User_has_element u e]) LE (quicksum [User_num_elements u e]) [],
         Constr (quicksum [User_has_element u e]) LE (const 1) [],
         Constr ([(1, User_num_replicated_elements u e)], 1) GE
           (quicksum (map (\<lambda>d. X e d) (user_devices num_devices mats u))) []])
        (user_elements num_elements mats u))
     @ [Constr (quicksum [User_num_unique_elements u]) EQ
          (quicksum (map (\<lambda>e. User_has_element u e) (user_elements num_elements mats u))) []]"

definition min_ratio_constraints :: "nat \<Rightarrow> matrices \<Rightarrow> nat \<Rightarrow> constr list" where
  "min_ratio_constraints num_elements mats u =
     (let num_user_elements = length (user_elements num_elements mats u) in
      if num_user_elements > 0
      then [Constr (quicksum [Min_ratio_unique_elements]) LE
              ([(1 / real num_user_elements, User_num_unique_elements u)], 0) []]
      else [])"

text \<open>
  Lines 175 to 217: the two terms of the objective. Dividing the sum of a device by its
  area raises when the area is zero.
\<close>

definition quality_of_device ::
  "nat \<Rightarrow> device list \<Rightarrow> matrices \<Rightarrow> nat \<Rightarrow> (real \<times> var) list \<Rightarrow> error + (real \<times> var) list" where
  "quality_of_device num_elements devices mats d quality_term =
     (if area (devices ! d) = 0 then Inl ZeroDivisionError
      else Inr (quality_term @
                map (\<lambda>e. (element_device_comp mats e d * element_device_imp mats e d / area (devices ! d),
                          S e d))
                    [0..<num_elements]))"

definition completeness_of_user ::
  "nat \<Rightarrow> nat \<Rightarrow> nat \<Rightarrow> matrices \<Rightarrow> nat \<Rightarrow> (real \<times> var) list" where
  "completeness_of_user num_elements num_devices num_users mats u =
     (if length (user_devices num_devices mats u) > 0 \<and> length (user_elements num_elements mats u) > 0
      then map (\<lambda>e. (1 / (real (length (user_elements num_elements mats u)) * real num_users),
                      User_has_element u e))
               (user_elements num_elements mats u)
      else [])"

definition prune ::
  "element list \<Rightarrow> device list \<Rightarrow> user list \<Rightarrow> matrices \<Rightarrow> bool matrix \<times> constr list" where
  "prune elements devices users mats =
     fold (\<lambda>d. fold (pruning_cell elements devices mats d) [0..<length elements])
          [0..<length devices]
          (initial_element_device_access (length elements) (length devices) (length users) mats,
           concat (map (device_constraints elements devices) [0..<length devices]))"

definition build_model ::
  "element list \<Rightarrow> device list \<Rightarrow> user list \<Rightarrow> matrices \<Rightarrow> error + model" where
  "build_model elements devices users mats =
     (let num_elements = length elements;
          num_devices = length devices;
          num_users = length users
      in
      case prune elements devices users mats of
        (element_device_access, pruned_cs) \<Rightarrow>
      bind_error (for_each [0..<num_devices] (quality_of_device num_elements devices mats) [])
        (\<lambda>quality_term.
      Inr \<lparr>vars = assignment_vars num_elements num_devices
                   @ concat (map (coverage_vars num_elements mats) [0..<num_users])
                   @ [(Min_ratio_unique_elements, CONTINUOUS)],
           constrs = pruned_cs
                   @ concat (map (orphan_constraints num_elements devices element_device_access)
                                 [0..<num_devices])
                   @ concat (map (coverage_constraints num_elements num_devices mats) [0..<num_users])
                   @ concat (map (min_ratio_constraints num_elements mats) [0..<num_users]),
           objectives =
             [((quality_term, 0), 8 / 10),
              ((concat (map (completeness_of_user num_elements num_devices num_users mats)
                            [0..<num_users])
                @ [(1, Min_ratio_unique_elements)], 0), 2 / 10)]\<rparr>))"

subsection \<open>The result (optimize, lines 41 to 50 and 219 to 280)\<close>

text \<open>
  The output dict maps a device to the list of its elements. An element in such a list
  is a reference to an object of the caller's list \<^verbatim>\<open>elements\<close>, which the last loop
  mutates; so while the loop runs the lists hold positions in \<^verbatim>\<open>elements\<close>, and
  \<open>resolve\<close> reads the objects when the function returns.
\<close>

definition empty_output :: "device list \<Rightarrow> (device \<times> nat list) list" where
  "empty_output devices = fold (\<lambda>device output. AList.update device [] output) devices []"

definition record_size :: "string \<Rightarrow> real \<Rightarrow> element \<Rightarrow> element" where
  "record_size device_name v element =
     element\<lparr>optimizer_size :=
       Some (AList.update device_name v
               (case optimizer_size element of None \<Rightarrow> [] | Some sizes \<Rightarrow> sizes))\<rparr>"

definition fill_cell ::
  "(var \<Rightarrow> real) \<Rightarrow> device list \<Rightarrow> (nat \<times> nat) \<times> var \<Rightarrow>
   element list \<times> (device \<times> nat list) list \<Rightarrow> error + element list \<times> (device \<times> nat list) list" where
  "fill_cell value devices item st =
     (case (item, st) of (((e, d), v), (elements, output)) \<Rightarrow>
        if value v \<noteq> 1 then Inr st
        else
          let device = devices ! d;
              elements = elements[e := record_size (device.name device) (value (S e d)) (elements ! e)]
          in case map_of output device of
               None \<Rightarrow> Inl KeyError
             | Some assigned \<Rightarrow> Inr (elements, AList.update device (assigned @ [e]) output))"

definition resolve ::
  "element list \<Rightarrow> (device \<times> nat list) list \<Rightarrow> (device \<times> element list) list" where
  "resolve elements output = map (\<lambda>(device, assigned). (device, map (\<lambda>e. elements ! e) assigned)) output"

record outcome =
  elements_after :: "element list"
  devices_after :: "device list"
  users_after :: "user list"
  returned :: "error + (device \<times> element list) list \<times> real"

definition optimize :: "environment \<Rightarrow> element list \<Rightarrow> device list \<Rightarrow> user list \<Rightarrow> outcome" where
  "optimize env elements0 devices0 users0 =
     (let elements = sort_key element.name elements0;
          devices = sort_key device.name devices0;
          users = sort_key user.name users0;
          return = (\<lambda>elements' r. \<lparr>elements_after = elements', devices_after = devices,
                                     users_after = users, returned = r\<rparr>)
      in
      if length users = 0 \<or> length devices = 0 \<or> length elements = 0
      then return elements (Inr (resolve elements (empty_output devices), 0))
      else
        case pre_process_objects env elements devices users of
          Inl err \<Rightarrow> return elements (Inl err)
        | Inr mats \<Rightarrow>
        case build_model elements devices users mats of
          Inl err \<Rightarrow> return elements (Inl err)
        | Inr m \<Rightarrow>
        let output = empty_output devices;
            (model_status, value) = solve env m;
            time_taken = end_time env - start_time env
        in
        if model_status \<noteq> OPTIMAL
        then return elements (Inr (resolve elements output, time_taken))
        else
          case for_each (dict_items (key_slot env)
                           (map (\<lambda>(e, d). ((e, d), X e d)) (x_keys (length elements) (length devices))))
                        (fill_cell value devices) (elements, output) of
            Inl err \<Rightarrow> return elements (Inl err)
          | Inr (elements', output') \<Rightarrow>
              return elements' (Inr (resolve elements' output', time_taken)))"

subsection \<open>What the solver promises\<close>

text \<open>
  Modelled from the spec: the solver is an external collaborator. The values it gives
  with the status optimal are feasible: they satisfy every constraint handed to it, a
  binary variable is 0 or 1, and an indicator constraint binds when its binary variable
  has the stated value.
\<close>

fun eval_linexpr :: "(var \<Rightarrow> real) \<Rightarrow> linexpr \<Rightarrow> real" where
  "eval_linexpr value (terms, c) = sum_list (map (\<lambda>(k, v). k * value v) terms) + c"

fun compare :: "sense \<Rightarrow> real \<Rightarrow> real \<Rightarrow> bool" where
  "compare LE a b = (a \<le> b)"
| "compare GE a b = (a \<ge> b)"
| "compare EQ a b = (a = b)"

fun satisfies :: "(var \<Rightarrow> real) \<Rightarrow> constr \<Rightarrow> bool" where
  "satisfies value (Constr lhs sn rhs constr_name) =
     compare sn (eval_linexpr value lhs) (eval_linexpr value rhs)"
| "satisfies value (GenConstrIndicator b binval lhs sn rhs) =
     (value b = (if binval then 1 else 0) \<longrightarrow>
      compare sn (eval_linexpr value lhs) (eval_linexpr value rhs))"

definition feasible :: "model \<Rightarrow> (var \<Rightarrow> real) \<Rightarrow> bool" where
  "feasible m value \<longleftrightarrow>
     list_all (satisfies value) (constrs m) \<and>
     list_all (\<lambda>(v, t). t = BINARY \<longrightarrow> value v = 0 \<or> value v = 1) (vars m)"

subsection \<open>Notions used in the statements\<close>

text \<open>An element without the sizes the optimizer has attached to it.\<close>

definition forget_size :: "element \<Rightarrow> element" where
  "forget_size el = el\<lparr>optimizer_size := None\<rparr>"

text \<open>The name line 117 gives to the privacy constraint of element \<open>e\<close> and device \<open>d\<close>.\<close>

definition privacy_name :: "element list \<Rightarrow> device list \<Rightarrow> nat \<Rightarrow> nat \<Rightarrow> string" where
  "privacy_name elements devices e d =
     ''privacy_'' @ element.name (elements ! e) @ ''_'' @ device.name (devices ! d)"

text \<open>The positions that the last loop of \<open>optimize\<close> appends to the list of a device.\<close>

definition assigned_to ::
  "(var \<Rightarrow> real) \<Rightarrow> device list \<Rightarrow> ((nat \<times> nat) \<times> var) list \<Rightarrow> device \<Rightarrow> nat list" where
  "assigned_to value devices items dv =
     map (\<lambda>item. fst (fst item))
       (filter (\<lambda>item. value (snd item) = 1 \<and> devices ! snd (fst item) = dv) items)"

text \<open>The element at position \<open>e\<close> carries the size \<open>s\<close> under the device name \<open>n\<close>.\<close>

definition has_size :: "element list \<Rightarrow> nat \<Rightarrow> string \<Rightarrow> real \<Rightarrow> bool" where
  "has_size els e n s \<longleftrightarrow>
     e < length els \<and>
     (case optimizer_size (els ! e) of None \<Rightarrow> False | Some sizes \<Rightarrow> map_of sizes n = Some s)"

subsection \<open>Concrete inputs\<close>

definition full_properties :: properties where
  "full_properties = \<lparr>visual_display = 5, text_input = 5, touch_pointing = 5, mouse_pointing = 5\<rparr>"

definition plain :: properties where
  "plain = \<lparr>visual_display = 1, text_input = 0, touch_pointing = 0, mouse_pointing = 0\<rparr>"

text \<open>
  An office: Alice and Bob share the wall, the desk is Alice's. The minutes matter to Bob
  only, through his override.
\<close>

definition alice :: user where
  "alice = \<lparr>user.name = ''alice'', importance = []\<rparr>"

definition bob :: user where
  "bob = \<lparr>user.name = ''bob'', importance = [(''minutes'', 4), (''calendar'', 1)]\<rparr>"

definition calendar :: element where
  "calendar = \<lparr>element.name = ''calendar'', importance = 1, min_width = 1, min_height = 1,
                min_area = 1, max_area = 4, properties = plain, optimizer_size = None\<rparr>"

definition minutes :: element where
  "minutes = \<lparr>element.name = ''minutes'', importance = 0, min_width = 1, min_height = 1,
             min_area = 1, max_area = 4, properties = plain, optimizer_size = None\<rparr>"

definition desk :: device where
  "desk = \<lparr>device.name = ''desk'', width = 2, height = 2, area = 4, properties = plain,
            device_users = [alice]\<rparr>"

definition wall :: device where
  "wall = \<lparr>device.name = ''wall'', width = 2, height = 2, area = 4, properties = plain,
            device_users = [alice, bob]\<rparr>"

text \<open>The calendar on both devices at full size, the minutes nowhere.\<close>

definition calendar_everywhere :: "var \<Rightarrow> real" where
  "calendar_everywhere v =
     (case v of
        X e d \<Rightarrow> if e = 0 then 1 else 0
      | S e d \<Rightarrow> if e = 0 then 4 else 0
      | User_num_elements u e \<Rightarrow> if e = 0 then (if u = 0 then 2 else 1) else 0
      | User_has_element u e \<Rightarrow> if e = 0 then 1 else 0
      | User_num_replicated_elements u e \<Rightarrow> if u = 0 \<and> e = 0 then 1 else 0
      | User_num_unique_elements u \<Rightarrow> 1
      | Min_ratio_unique_elements \<Rightarrow> 1 / 2)"

text \<open>A solver that reports optimal for a given assignment of values only when it is feasible.\<close>

definition checking_solver :: "(var \<Rightarrow> real) \<Rightarrow> model \<Rightarrow> status \<times> (var \<Rightarrow> real)" where
  "checking_solver value m = (if feasible m value then OPTIMAL else INFEASIBLE, value)"

definition office :: environment where
  "office = \<lparr>user_has_access = (\<lambda>el us. True), compatibility = calculate_compatibility,
              str_slot = (\<lambda>k. 0), key_slot = (\<lambda>k. 0),
              solve = checking_solver calendar_everywhere, start_time = 10, end_time = 12\<rparr>"

definition office_without_solution :: environment where
  "office_without_solution = office\<lparr>solve := (\<lambda>m. (INFEASIBLE, (\<lambda>v. 0)))\<rparr>"

definition office_matrices :: matrices where
  "office_matrices = projr (pre_process_objects office [calendar, minutes] [desk, wall] [alice, bob])"

definition office_model :: model where
  "office_model = projr (build_model [calendar, minutes] [desk, wall] [alice, bob] office_matrices)"

text \<open>
  A board for Bob and Dana, and a memo that is worth nothing to Dana but that Carol,
  who is not at the board, may see.
\<close>

definition carol :: user where
  "carol = \<lparr>user.name = ''carol'', importance = []\<rparr>"

definition dana :: user where
  "dana = \<lparr>user.name = ''dana'', importance = [(''memo'', 0)]\<rparr>"

definition memo :: element where
  "memo = \<lparr>element.name = ''memo'', importance = 1, min_width = 1, min_height = 1,
            min_area = 1, max_area = 4, properties = plain, optimizer_size = None\<rparr>"

definition board :: device where
  "board = \<lparr>device.name = ''board'', width = 2, height = 2, area = 4, properties = plain,
             device_users = [bob, dana]\<rparr>"

text \<open>
  The three matrices with which the refinement loop reaches the memo and the board:
  users 0, 1 and 2 are Bob, Carol and Dana.
\<close>

definition board_device_access :: "bool matrix" where
  "board_device_access = (\<lambda>u d. d = 0 \<and> (u = 0 \<or> u = 2))"

definition memo_element_access :: "bool matrix" where
  "memo_element_access = (\<lambda>u e. e = 0 \<and> (u = 0 \<or> u = 1))"

definition memo_device_imp :: "real matrix" where
  "memo_device_imp = (\<lambda>e d. 1 / 2)"

text \<open>
  A screen large enough for a chart and a clock. CPython 2.7 keeps the keys \<open>(0, 0)\<close>
  and \<open>(1, 0)\<close> of the dict \<open>x\<close> in the slots 3 and 2 of its table of 8 slots (their
  hashes are 3713080549408328131 and 3713081631936575706), so it enumerates
  \<open>(1, 0)\<close> first.
\<close>

definition chart :: element where
  "chart = \<lparr>element.name = ''chart'', importance = 1, min_width = 1, min_height = 1,
             min_area = 1, max_area = 4, properties = plain, optimizer_size = None\<rparr>"

definition clock :: element where
  "clock = \<lparr>element.name = ''clock'', importance = 1, min_width = 1, min_height = 1,
             min_area = 1, max_area = 4, properties = plain, optimizer_size = None\<rparr>"

definition screen :: device where
  "screen = \<lparr>device.name = ''screen'', width = 4, height = 2, area = 8, properties = plain,
              device_users = [alice]\<rparr>"

definition both_on_screen :: "var \<Rightarrow> real" where
  "both_on_screen v =
     (case v of
        X e d \<Rightarrow> 1
      | S e d \<Rightarrow> 4
      | User_num_elements u e \<Rightarrow> 1
      | User_has_element u e \<Rightarrow> 1
      | User_num_replicated_elements u e \<Rightarrow> 0
      | User_num_unique_elements u \<Rightarrow> 2
      | Min_ratio_unique_elements \<Rightarrow> 1)"

definition cpython2_slot :: "nat \<times> nat \<Rightarrow> nat" where
  "cpython2_slot k = (if k = (0, 0) then 3 else if k = (1, 0) then 2 else 0)"

definition cpython2 :: environment where
  "cpython2 = \<lparr>user_has_access = (\<lambda>el us. True), compatibility = calculate_compatibility,
                str_slot = (\<lambda>k. 0), key_slot = cpython2_slot,
                solve = checking_solver both_on_screen, start_time = 10, end_time = 12\<rparr>"

section \<open>Properties: the dot product\<close>

lemma product_of_levels:
  fixes x y :: int
  assumes "0 \<le> x" "x \<le> 5" "0 \<le> y" "y \<le> 5"
  shows "0 \<le> x * y \<and> x * y \<le> 25"
proof
  show "0 \<le> x * y" using assms by simp
  have "x * y \<le> 5 * 5" using assms by (intro mult_mono) simp_all
  then show "x * y \<le> 25" by simp
qed

lemma valid_properties_iff:
  "valid_properties p \<longleftrightarrow>
     0 \<le> visual_display p \<and> visual_display p \<le> 5 \<and> 0 \<le> text_input p \<and> text_input p \<le> 5 \<and>
     0 \<le> touch_pointing p \<and> touch_pointing p \<le> 5 \<and> 0 \<le> mouse_pointing p \<and> mouse_pointing p \<le> 5"
  by (auto simp add: valid_properties_def Properties_init_def)

lemma dot_range:
  assumes "valid_properties a" "valid_properties b"
  shows "0 \<le> dot a b \<and> dot a b \<le> 100"
proof -
  note va = assms(1)[unfolded valid_properties_iff] and vb = assms(2)[unfolded valid_properties_iff]
  have 1: "0 \<le> visual_display a * visual_display b \<and> visual_display a * visual_display b \<le> 25"
    using va vb by (intro product_of_levels) simp_all
  have 2: "0 \<le> text_input a * text_input b \<and> text_input a * text_input b \<le> 25"
    using va vb by (intro product_of_levels) simp_all
  have 3: "0 \<le> touch_pointing a * touch_pointing b \<and> touch_pointing a * touch_pointing b \<le> 25"
    using va vb by (intro product_of_levels) simp_all
  have 4: "0 \<le> mouse_pointing a * mouse_pointing b \<and> mouse_pointing a * mouse_pointing b \<le> 25"
    using va vb by (intro product_of_levels) simp_all
  show ?thesis unfolding dot_def using 1 2 3 4 by linarith
qed

text \<open>
  C10. For any two Properties values that the constructor accepts, \<open>dot\<close> is
  commutative and its result is an integer between 0 and 100; hence the compatibility
  score of a device and an element under the dot metric is not negative.
\<close>

theorem dot_commutative_bounded:
  assumes "valid_properties a" and "valid_properties b"
  shows "dot a b = dot b a \<and> 0 \<le> dot a b \<and> dot a b \<le> 100 \<and>
         0 \<le> calculate_compatibility (dv\<lparr>device.properties := a\<rparr>) (el\<lparr>element.properties := b\<rparr>)"
proof -
  have "dot a b = dot b a" by (simp add: dot_def mult.commute)
  moreover have "0 \<le> dot a b \<and> dot a b \<le> 100" using assms by (rule dot_range)
  ultimately show ?thesis by (simp add: calculate_compatibility_def)
qed


theorem dot_commutative_bounded_witness:
  "valid_properties full_properties \<and> dot full_properties full_properties = 100 \<and>
   dot full_properties full_properties \<le> 100"
proof -
  have v: "valid_properties full_properties"
    by (simp add: valid_properties_def Properties_init_def full_properties_def)
  have "dot full_properties full_properties = 100" by (simp add: dot_def full_properties_def)
  with v dot_commutative_bounded [OF v v] show ?thesis by simp
qed

section \<open>Iteration, exceptions and normalisation\<close>

lemma bind_error_Inr_iff:
  "bind_error r f = Inr b \<longleftrightarrow> (\<exists>a. r = Inr a \<and> f a = Inr b)"
  by (cases r) simp_all

lemma for_each_invariant:
  assumes "for_each xs body s = Inr s'" and "P s"
    and "\<And>i t t'. i \<in> set xs \<Longrightarrow> P t \<Longrightarrow> body i t = Inr t' \<Longrightarrow> P t'"
  shows "P s'"
  using assms
proof (induction xs arbitrary: s)
  case Nil
  then show ?case by simp
next
  case (Cons i rest)
  from Cons.prems(1) obtain t where t: "body i s = Inr t" "for_each rest body t = Inr s'"
    by (auto simp add: bind_error_Inr_iff)
  have "P t" using Cons.prems(3) [of i s t] Cons.prems(2) t(1) by simp
  moreover have "\<And>k u u'. k \<in> set rest \<Longrightarrow> P u \<Longrightarrow> body k u = Inr u' \<Longrightarrow> P u'"
    using Cons.prems(3) by (meson list.set_intros(2))
  ultimately show ?case using Cons.IH [OF t(2)] by blast
qed

lemma for_each_total:
  assumes "P s"
    and "\<And>i t. i \<in> set xs \<Longrightarrow> P t \<Longrightarrow> \<exists>t'. body i t = Inr t' \<and> P t'"
  shows "\<exists>s'. for_each xs body s = Inr s' \<and> P s'"
  using assms
proof (induction xs arbitrary: s)
  case Nil
  then show ?case by simp
next
  case (Cons i rest)
  from Cons.prems obtain t where t: "body i s = Inr t" "P t" by fastforce
  from Cons.IH [OF t(2)] Cons.prems(2) obtain s' where "for_each rest body t = Inr s'" "P s'"
    by auto
  with t show ?case by simp
qed

lemma fold_invariant:
  assumes "P s" and "\<And>i t. i \<in> set xs \<Longrightarrow> P t \<Longrightarrow> P (f i t)"
  shows "P (fold f xs s)"
  using assms by (induction xs arbitrary: s) simp_all

lemma normalized_bounds:
  assumes "normalized v = Inr w" and "\<forall>x\<in>set v. 0 \<le> x"
  shows "length w = length v \<and> (\<forall>i<length v. 0 \<le> w ! i \<and> w ! i \<le> 1)"
proof -
  from assms(1) have ne: "v \<noteq> []" by (auto simp add: normalized_def split: if_splits)
  define M where "M = Max (set v)"
  have le: "x \<le> M" if "x \<in> set v" for x using that by (simp add: M_def)
  show ?thesis
  proof (cases "M > 1 / 1000000")
    case True
    with assms(1) ne have w: "w = map (\<lambda>x. x / M) v"
      by (simp add: normalized_def M_def Let_def)
    have "0 \<le> v ! i / M \<and> v ! i / M \<le> 1" if "i < length v" for i
    proof -
      have "v ! i \<in> set v" using that by simp
      then have "0 \<le> v ! i" "v ! i \<le> M" using assms(2) le by auto
      with True show ?thesis by (simp add: divide_le_eq_1)
    qed
    with w show ?thesis by simp
  next
    case False
    with assms(1) ne have w: "w = v"
      by (simp add: normalized_def M_def Let_def)
    have "0 \<le> v ! i \<and> v ! i \<le> 1" if "i < length v" for i
    proof -
      have "v ! i \<in> set v" using that by simp
      then have "0 \<le> v ! i" "v ! i \<le> M" using assms(2) le by auto
      with False show ?thesis by simp
    qed
    with w show ?thesis by simp
  qed
qed

lemma normalized_total: "v \<noteq> [] \<Longrightarrow> \<exists>w. normalized v = Inr w"
  by (simp add: normalized_def Let_def)

lemma normalized_small: "v \<noteq> [] \<Longrightarrow> Max (set v) \<le> 1 / 1000000 \<Longrightarrow> normalized v = Inr v"
  by (simp add: normalized_def Let_def)

lemma normalized_zero: "0 < n \<Longrightarrow> normalized (replicate n 0) = Inr (replicate n 0)"
  by (rule normalized_small) (auto simp add: Max_eq_iff)

lemma length_column [simp]: "length (column m n j) = n"
  by (simp add: column_def)

lemma nth_column [simp]: "i < n \<Longrightarrow> column m n j ! i = m i j"
  by (simp add: column_def)

lemma set_column_apply: "set_column m j v i j' = (if j' = j \<and> i < length v then v ! i else m i j')"
  by (simp add: set_column_def)

lemma set_cell_apply: "set_cell m i j v i' j' = (if i' = i \<and> j' = j then v else m i' j')"
  by (simp add: set_cell_def)

lemma normalize_column_effect:
  assumes "normalize_column n j m = Inr m'" and "\<forall>i<n. 0 \<le> m i j"
  shows "(\<forall>i<n. 0 \<le> m' i j \<and> m' i j \<le> 1) \<and> (\<forall>i j'. j' \<noteq> j \<longrightarrow> m' i j' = m i j')"
proof -
  from assms(1) obtain w where w: "normalized (column m n j) = Inr w" and m': "m' = set_column m j w"
    by (auto simp add: normalize_column_def bind_error_Inr_iff)
  have "\<forall>x\<in>set (column m n j). 0 \<le> x" using assms(2) by (auto simp add: column_def)
  from normalized_bounds [OF w this] have "length w = n" "\<forall>i<n. 0 \<le> w ! i \<and> w ! i \<le> 1"
    by simp_all
  then show ?thesis by (simp add: m' set_column_apply)
qed

lemma normalize_column_total: "0 < n \<Longrightarrow> \<exists>m'. normalize_column n j m = Inr m'"
proof -
  assume "0 < n"
  then have "column m n j \<noteq> []" by (simp add: column_def)
  from normalized_total [OF this] show ?thesis by (auto simp add: normalize_column_def)
qed

text \<open>Steps that rewrite one column and normalise it.\<close>

lemma column_steps_bounds:
  assumes "for_each js step s = Inr s'"
    and "\<forall>i<n. \<forall>j. 0 \<le> proj s i j"
    and "\<And>j t t'. j \<in> set js \<Longrightarrow> step j t = Inr t' \<Longrightarrow> \<forall>i<n. \<forall>j'. 0 \<le> proj t i j' \<Longrightarrow>
           (\<forall>i<n. 0 \<le> proj t' i j \<and> proj t' i j \<le> 1) \<and> (\<forall>i j'. j' \<noteq> j \<longrightarrow> proj t' i j' = proj t i j')"
  shows "(\<forall>i<n. \<forall>j. 0 \<le> proj s' i j) \<and> (\<forall>i<n. \<forall>j\<in>set js. proj s' i j \<le> 1) \<and>
         (\<forall>i j. j \<notin> set js \<longrightarrow> proj s' i j = proj s i j)"
  using assms
proof (induction js arbitrary: s)
  case Nil
  then show ?case by simp
next
  case (Cons j rest)
  from Cons.prems(1) obtain t where t: "step j s = Inr t" "for_each rest step t = Inr s'"
    by (auto simp add: bind_error_Inr_iff)
  have st: "(\<forall>i<n. 0 \<le> proj t i j \<and> proj t i j \<le> 1) \<and> (\<forall>i j'. j' \<noteq> j \<longrightarrow> proj t i j' = proj s i j')"
    using Cons.prems(3) [OF _ t(1) Cons.prems(2)] by simp
  have nonneg: "\<forall>i<n. \<forall>j'. 0 \<le> proj t i j'"
  proof (intro allI impI)
    fix i j' assume "i < n"
    then show "0 \<le> proj t i j'" using st Cons.prems(2) by (cases "j' = j") auto
  qed
  have step': "(\<forall>i<n. 0 \<le> proj u' i k \<and> proj u' i k \<le> 1) \<and> (\<forall>i j'. j' \<noteq> k \<longrightarrow> proj u' i j' = proj u i j')"
    if "k \<in> set rest" "step k u = Inr u'" "\<forall>i<n. \<forall>j'. 0 \<le> proj u i j'" for k u u'
    using Cons.prems(3) [of k u u'] that by simp
  have ih: "(\<forall>i<n. \<forall>j. 0 \<le> proj s' i j) \<and> (\<forall>i<n. \<forall>j\<in>set rest. proj s' i j \<le> 1) \<and>
         (\<forall>i j. j \<notin> set rest \<longrightarrow> proj s' i j = proj t i j)"
    by (rule Cons.IH [OF t(2) nonneg step'])
  show ?case
  proof (intro conjI allI impI ballI)
    fix i j' assume "i < n" then show "0 \<le> proj s' i j'" using ih by simp
  next
    fix i j' assume i: "i < n" and j': "j' \<in> set (j # rest)"
    show "proj s' i j' \<le> 1"
    proof (cases "j' \<in> set rest")
      case True
      with ih i show ?thesis by simp
    next
      case False
      with j' have "j' = j" by simp
      with False ih st i show ?thesis by simp
    qed
  next
    fix i j' assume "j' \<notin> set (j # rest)"
    then show "proj s' i j' = proj s i j'" using ih st by simp
  qed
qed

section \<open>The concrete inputs\<close>

lemma office_sorted:
  "sort_key element.name [minutes, calendar] = [calendar, minutes]"
  "sort_key device.name [wall, desk] = [desk, wall]"
  "sort_key user.name [bob, alice] = [alice, bob]"
  by code_simp+

lemma office_matrices_returned:
  "pre_process_objects office [calendar, minutes] [desk, wall] [alice, bob] = Inr office_matrices"
proof -
  have "\<not> isl (pre_process_objects office [calendar, minutes] [desk, wall] [alice, bob])"
    by code_simp
  then show ?thesis by (simp add: office_matrices_def)
qed

lemma office_model_built:
  "build_model [calendar, minutes] [desk, wall] [alice, bob] office_matrices = Inr office_model"
proof -
  have "\<not> isl (build_model [calendar, minutes] [desk, wall] [alice, bob] office_matrices)"
    by code_simp
  then show ?thesis by (simp add: office_model_def)
qed

section \<open>Preprocessing: the normalised matrices\<close>

lemma fold_set_cell_column:
  "fold (\<lambda>e m. set_cell m e d (f e)) es m i j = (if j = d \<and> i \<in> set es then f i else m i j)"
  by (induction es arbitrary: m rule: rev_induct) (auto simp add: set_cell_apply)

lemma compatibility_column_effect:
  assumes "compatibility_column env elements devices d t = Inr t'"
    and "\<forall>i<length elements. 0 \<le> compatibility env (devices ! d) (elements ! i)"
  shows "(\<forall>i<length elements. 0 \<le> t' i d \<and> t' i d \<le> 1) \<and> (\<forall>i j'. j' \<noteq> d \<longrightarrow> t' i j' = t i j')"
proof -
  let ?m = "fold (\<lambda>e m. set_cell m e d (compatibility env (devices ! d) (elements ! e)))
             [0..<length elements] t"
  from assms(1) have n: "normalize_column (length elements) d ?m = Inr t'"
    by (simp add: compatibility_column_def)
  have "\<forall>i<length elements. 0 \<le> ?m i d" using assms(2) by (simp add: fold_set_cell_column)
  from normalize_column_effect [OF n this] show ?thesis by (simp add: fold_set_cell_column)
qed

lemma element_device_comp_bounds:
  assumes "for_each [0..<length devices] (compatibility_column env elements devices) (\<lambda>e d. 0) = Inr edc"
    and "\<forall>dv\<in>set devices. \<forall>el\<in>set elements. 0 \<le> compatibility env dv el"
    and "e < length elements" and "d < length devices"
  shows "0 \<le> edc e d \<and> edc e d \<le> 1"
proof -
  have step: "(\<forall>i<length elements. 0 \<le> id t' i j \<and> id t' i j \<le> 1) \<and> (\<forall>i j'. j' \<noteq> j \<longrightarrow> id t' i j' = id t i j')"
    if "j \<in> set [0..<length devices]" "compatibility_column env elements devices j t = Inr t'"
      "\<forall>i<length elements. \<forall>j'. 0 \<le> id t i j'" for j t t'
  proof -
    from that(1) have "devices ! j \<in> set devices" by simp
    then have "\<forall>i<length elements. 0 \<le> compatibility env (devices ! j) (elements ! i)"
      using assms(2) by simp
    from compatibility_column_effect [OF that(2) this] show ?thesis by simp
  qed
  have "\<forall>i<length elements. \<forall>j. 0 \<le> id (\<lambda>e d. 0::real) i j" by simp
  from column_steps_bounds [where proj = id, OF assms(1) this step]
  show ?thesis using assms(3,4) by simp
qed

lemma set_dict_items [simp]: "set (dict_items slot d) = set d"
  by (simp add: dict_items_def)

lemma user_importance_column_nonneg:
  assumes "\<forall>i j. 0 \<le> m i j"
    and "\<forall>el\<in>set elements. 0 \<le> element.importance el"
    and "\<forall>kv\<in>set (user.importance (users ! u)). 0 \<le> snd kv"
  shows "\<forall>i j. 0 \<le> user_importance_column env elements users u m i j"
proof -
  have base: "\<forall>i j. 0 \<le> set_column m u (map element.importance elements) i j"
    using assms(1,2) by (simp add: set_column_apply)
  show ?thesis
    unfolding user_importance_column_def
    apply (rule fold_invariant [where P = "\<lambda>m. \<forall>i j. 0 \<le> m i j"])
     apply (rule base)
    subgoal for kv t
      using assms(3) by (cases kv) (auto simp add: set_cell_apply split: option.splits)
    done
qed

lemma initial_element_user_imp_nonneg:
  assumes "\<forall>el\<in>set elements. 0 \<le> element.importance el"
    and "\<forall>us\<in>set users. \<forall>kv\<in>set (user.importance us). 0 \<le> snd kv"
  shows "\<forall>i j. 0 \<le> initial_element_user_imp env elements users i j"
  unfolding initial_element_user_imp_def
proof (rule fold_invariant [where P = "\<lambda>m. \<forall>i j. 0 \<le> m i j"])
  show "\<forall>i j. (0::real) \<le> 0" by simp
next
  fix u and t :: "real matrix"
  assume "u \<in> set [0..<length users]" and t: "\<forall>i j. 0 \<le> t i j"
  then have "users ! u \<in> set users" by simp
  then have "\<forall>kv\<in>set (user.importance (users ! u)). 0 \<le> snd kv" using assms(2) by blast
  from user_importance_column_nonneg [OF t assms(1) this]
  show "\<forall>i j. 0 \<le> user_importance_column env elements users u t i j" .
qed

lemma element_access_cells_nonneg:
  assumes "\<forall>i j. 0 \<le> snd st i j"
  shows "\<forall>i j. 0 \<le> snd (fold (\<lambda>e. fold (element_access_cell env elements users e) us) es st) i j"
proof (rule fold_invariant [where P = "\<lambda>st. \<forall>i j. 0 \<le> snd st i j"])
  show "\<forall>i j. 0 \<le> snd st i j" by (rule assms)
next
  fix e and t :: "bool matrix \<times> real matrix"
  assume "\<forall>i j. 0 \<le> snd t i j"
  then show "\<forall>i j. 0 \<le> snd (fold (element_access_cell env elements users e) us t) i j"
  proof (rule fold_invariant [where P = "\<lambda>st. \<forall>i j. 0 \<le> snd st i j"])
    fix u and t' :: "bool matrix \<times> real matrix"
    assume "\<forall>i j. 0 \<le> snd t' i j"
    then show "\<forall>i j. 0 \<le> snd (element_access_cell env elements users e u t') i j"
      by (cases t') (simp add: element_access_cell_def set_cell_apply)
  qed
qed

lemma normalized_columns_bounds:
  assumes "for_each [0..<num_users] (normalize_column n) m = Inr m'"
    and "\<forall>i<n. \<forall>j. 0 \<le> m i j"
  shows "(\<forall>i<n. \<forall>j. 0 \<le> m' i j) \<and> (\<forall>i<n. \<forall>j<num_users. m' i j \<le> 1)"
proof -
  have step: "(\<forall>i<n. 0 \<le> id t' i j \<and> id t' i j \<le> 1) \<and> (\<forall>i j'. j' \<noteq> j \<longrightarrow> id t' i j' = id t i j')"
    if "j \<in> set [0..<num_users]" "normalize_column n j t = Inr t'" "\<forall>i<n. \<forall>j'. 0 \<le> id t i j'" for j t t'
    using normalize_column_effect [OF that(2)] that(3) by simp
  have "\<forall>i<n. \<forall>j. 0 \<le> id m i j" using assms(2) by simp
  from column_steps_bounds [where proj = id, OF assms(1) this step]
  show ?thesis by simp
qed

lemma matrix_product_nonneg:
  assumes "\<forall>i<n. \<forall>j. 0 \<le> a i j" and "i < n"
  shows "0 \<le> matrix_product k a b i j"
  unfolding matrix_product_def using assms by (intro sum_list_nonneg) auto

lemma divide_by_users_nonneg:
  assumes "\<forall>i<n. \<forall>j. 0 \<le> m i j"
  shows "\<forall>i<n. \<forall>j. 0 \<le> divide_by_users n k uda d m i j"
  using assms by (simp add: divide_by_users_def Let_def set_column_apply)

lemma refine_pair_fst:
  "fst (refine_pair k uda d e st) i j = fst st i j \<or>
   (j = d \<and> fst (refine_pair k uda d e st) i j = 0)"
  by (cases st) (simp add: refine_pair_def Let_def set_cell_apply)

lemma refine_pairs_fst:
  "fst (fold (refine_pair k uda d) es st) i j = fst st i j \<or>
   (j = d \<and> fst (fold (refine_pair k uda d) es st) i j = 0)"
proof (induction es arbitrary: st)
  case Nil
  then show ?case by simp
next
  case (Cons e es)
  from Cons.IH [of "refine_pair k uda d e st"] refine_pair_fst [of k uda d e st i j]
  show ?case by auto
qed

lemma refine_device_effect:
  assumes "refine_device n k uda d t = Inr t'" and "\<forall>i<n. \<forall>j. 0 \<le> fst t i j"
  shows "(\<forall>i<n. 0 \<le> fst t' i d \<and> fst t' i d \<le> 1) \<and> (\<forall>i j'. j' \<noteq> d \<longrightarrow> fst t' i j' = fst t i j')"
proof -
  obtain edi uea where f: "fold (refine_pair k uda d) [0..<n] t = (edi, uea)"
    by (cases "fold (refine_pair k uda d) [0..<n] t")
  with assms(1) obtain m where m: "normalize_column n d edi = Inr m" and t': "t' = (m, uea)"
    by (auto simp add: refine_device_def bind_error_Inr_iff)
  have edi: "edi i j = fst t i j \<or> (j = d \<and> edi i j = 0)" for i j
    using refine_pairs_fst [of k uda d "[0..<n]" t i j] f by simp
  have "\<forall>i<n. 0 \<le> edi i d"
  proof (intro allI impI)
    fix i assume "i < n"
    then show "0 \<le> edi i d" using edi [of i d] assms(2) by auto
  qed
  from normalize_column_effect [OF m this] have
    "(\<forall>i<n. 0 \<le> m i d \<and> m i d \<le> 1) \<and> (\<forall>i j'. j' \<noteq> d \<longrightarrow> m i j' = edi i j')" .
  moreover have "j' \<noteq> d \<Longrightarrow> edi i j' = fst t i j'" for i j' using edi [of i j'] by simp
  ultimately show ?thesis by (simp add: t')
qed

lemma element_device_imp_bounds:
  assumes "for_each [0..<num_devices] (refine_device n k uda) st = Inr st'"
    and "\<forall>i<n. \<forall>j. 0 \<le> fst st i j"
  shows "\<forall>i<n. \<forall>j<num_devices. 0 \<le> fst st' i j \<and> fst st' i j \<le> 1"
proof -
  have step: "(\<forall>i<n. 0 \<le> fst t' i j \<and> fst t' i j \<le> 1) \<and> (\<forall>i j'. j' \<noteq> j \<longrightarrow> fst t' i j' = fst t i j')"
    if "j \<in> set [0..<num_devices]" "refine_device n k uda j t = Inr t'" "\<forall>i<n. \<forall>j'. 0 \<le> fst t i j'" for j t t'
    using refine_device_effect [OF that(2,3)] .
  from column_steps_bounds [where proj = fst, OF assms(1) assms(2) step]
  show ?thesis by simp
qed

lemma pre_process_objects_stages:
  assumes "pre_process_objects env elements devices users = Inr mats"
  shows "\<exists>edc uda uea0 eui1 eui edi uea.
    for_each [0..<length devices] (compatibility_column env elements devices) (\<lambda>e d. 0) = Inr edc \<and>
    for_each [0..<length devices] (device_access_column devices users) (\<lambda>u d. False) = Inr uda \<and>
    fold (\<lambda>e. fold (element_access_cell env elements users e) [0..<length users])
        [0..<length elements] (\<lambda>u e. False, initial_element_user_imp env elements users) = (uea0, eui1) \<and>
    for_each [0..<length users] (normalize_column (length elements))
        (\<lambda>e u. eui1 e u * of_bool (uea0 u e)) = Inr eui \<and>
    for_each [0..<length devices] (refine_device (length elements) (length users) uda)
        (fold (divide_by_users (length elements) (length users) uda) [0..<length devices]
              (matrix_product (length users) eui uda),
         fold (\<lambda>e. fold (revoke_unimportant eui e) [0..<length users]) [0..<length elements] uea0)
       = Inr (edi, uea) \<and>
    mats = \<lparr>element_user_imp = eui, element_device_imp = edi, element_device_comp = edc,
             user_device_access = uda, user_element_access = uea\<rparr>"
proof -
  obtain uea0 eui1 where acc:
    "fold (\<lambda>e. fold (element_access_cell env elements users e) [0..<length users])
        [0..<length elements] (\<lambda>u e. False, initial_element_user_imp env elements users) = (uea0, eui1)"
    by (cases "fold (\<lambda>e. fold (element_access_cell env elements users e) [0..<length users])
        [0..<length elements] (\<lambda>u e. False, initial_element_user_imp env elements users)")
  show ?thesis
    using assms unfolding pre_process_objects_def Let_def acc prod.case
    by (auto simp add: bind_error_Inr_iff)
qed

text \<open>
  C3. When \<open>pre_process_objects\<close> returns, with importances, overrides and raw
  compatibility scores that are not negative, every entry of \<^verbatim>\<open>element_user_imp\<close>,
  of \<^verbatim>\<open>element_device_comp\<close> and of \<^verbatim>\<open>element_device_imp\<close> lies between 0 and 1,
  each matrix over its own shape; a column of zeros is returned as it is, as is any
  column whose maximum does not exceed 1e-6.
\<close>

theorem pre_process_objects_normalized:
  assumes "pre_process_objects env elements devices users = Inr mats"
    and "\<forall>el\<in>set elements. 0 \<le> element.importance el"
    and "\<forall>us\<in>set users. \<forall>kv\<in>set (user.importance us). 0 \<le> snd kv"
    and "\<forall>dv\<in>set devices. \<forall>el\<in>set elements. 0 \<le> compatibility env dv el"
  shows "(\<forall>e<length elements. \<forall>u<length users.
            0 \<le> element_user_imp mats e u \<and> element_user_imp mats e u \<le> 1) \<and>
         (\<forall>e<length elements. \<forall>d<length devices.
            0 \<le> element_device_comp mats e d \<and> element_device_comp mats e d \<le> 1) \<and>
         (\<forall>e<length elements. \<forall>d<length devices.
            0 \<le> element_device_imp mats e d \<and> element_device_imp mats e d \<le> 1) \<and>
         (0 < n \<longrightarrow> normalized (replicate n 0) = Inr (replicate n 0)) \<and>
         (v \<noteq> [] \<and> Max (set v) \<le> 1 / 1000000 \<longrightarrow> normalized v = Inr v)"
proof -
  from assms(1) obtain edc uda uea0 eui1 eui edi uea where
    edc: "for_each [0..<length devices] (compatibility_column env elements devices) (\<lambda>e d. 0) = Inr edc"
    and acc: "fold (\<lambda>e. fold (element_access_cell env elements users e) [0..<length users])
        [0..<length elements] (\<lambda>u e. False, initial_element_user_imp env elements users) = (uea0, eui1)"
    and eui: "for_each [0..<length users] (normalize_column (length elements))
        (\<lambda>e u. eui1 e u * of_bool (uea0 u e)) = Inr eui"
    and edi: "for_each [0..<length devices] (refine_device (length elements) (length users) uda)
        (fold (divide_by_users (length elements) (length users) uda) [0..<length devices]
              (matrix_product (length users) eui uda),
         fold (\<lambda>e. fold (revoke_unimportant eui e) [0..<length users]) [0..<length elements] uea0)
       = Inr (edi, uea)"
    and mats: "mats = \<lparr>element_user_imp = eui, element_device_imp = edi, element_device_comp = edc,
             user_device_access = uda, user_element_access = uea\<rparr>"
    using pre_process_objects_stages [OF assms(1)] by blast
  have comp: "\<forall>e<length elements. \<forall>d<length devices. 0 \<le> edc e d \<and> edc e d \<le> 1"
    using element_device_comp_bounds [OF edc assms(4)] by blast
  have "\<forall>i j. 0 \<le> snd (\<lambda>u e. False, initial_element_user_imp env elements users) i j"
    using initial_element_user_imp_nonneg [OF assms(2,3)] by simp
  from element_access_cells_nonneg [OF this, of env elements users "[0..<length users]" "[0..<length elements]"]
  have eui1: "\<forall>i j. 0 \<le> eui1 i j" by (simp add: acc)
  then have "\<forall>i<length elements. \<forall>j. 0 \<le> eui1 i j * of_bool (uea0 j i)" by simp
  from normalized_columns_bounds [OF eui this]
  have eui_b: "(\<forall>i<length elements. \<forall>j. 0 \<le> eui i j) \<and> (\<forall>i<length elements. \<forall>j<length users. eui i j \<le> 1)" .
  then have imp_u: "\<forall>e<length elements. \<forall>u<length users. 0 \<le> eui e u \<and> eui e u \<le> 1" by simp
  have prod: "\<forall>i<length elements. \<forall>j. 0 \<le> matrix_product (length users) eui uda i j"
    using matrix_product_nonneg [of "length elements" eui] eui_b by simp
  have "\<forall>i<length elements. \<forall>j. 0 \<le> fold (divide_by_users (length elements) (length users) uda)
           [0..<length devices] (matrix_product (length users) eui uda) i j"
    by (rule fold_invariant [where P = "\<lambda>m. \<forall>i<length elements. \<forall>j. 0 \<le> m i j"])
       (simp_all add: prod divide_by_users_nonneg)
  then have "\<forall>i<length elements. \<forall>j. 0 \<le> fst
     (fold (divide_by_users (length elements) (length users) uda) [0..<length devices]
              (matrix_product (length users) eui uda),
      fold (\<lambda>e. fold (revoke_unimportant eui e) [0..<length users]) [0..<length elements] uea0) i j"
    by simp
  from element_device_imp_bounds [OF edi this]
  have imp_d: "\<forall>e<length elements. \<forall>d<length devices. 0 \<le> edi e d \<and> edi e d \<le> 1" by simp
  have zero: "0 < n \<longrightarrow> normalized (replicate n 0) = Inr (replicate n 0)"
    by (simp add: normalized_zero)
  have small: "v \<noteq> [] \<and> Max (set v) \<le> 1 / 1000000 \<longrightarrow> normalized v = Inr v"
    by (simp add: normalized_small)
  show ?thesis
    unfolding mats matrices.simps using imp_u comp imp_d zero small by (intro conjI)
qed

text \<open>
  The office, and the office without any device: there preprocessing returns as well,
  and Bob's importance of the calendar is 1/4.
\<close>

theorem pre_process_objects_normalized_witness:
  "0 \<le> element_user_imp office_matrices 0 1 \<and> element_user_imp office_matrices 0 1 \<le> 1 \<and>
   0 \<le> element_device_comp office_matrices 0 1 \<and> element_device_comp office_matrices 0 1 \<le> 1 \<and>
   0 \<le> element_device_imp office_matrices 0 1 \<and> element_device_imp office_matrices 0 1 \<le> 1 \<and>
   normalized [0, 0] = Inr [0, 0] \<and>
   element_user_imp (projr (pre_process_objects office [calendar, minutes] [] [alice, bob])) 0 1 = 1 / 4 \<and>
   element_user_imp (projr (pre_process_objects office [calendar, minutes] [] [alice, bob])) 0 1 \<le> 1"
proof -
  have 1: "\<forall>el\<in>set [calendar, minutes]. 0 \<le> element.importance el"
    by (simp add: calendar_def minutes_def)
  have 2: "\<forall>us\<in>set [alice, bob]. \<forall>kv\<in>set (user.importance us). 0 \<le> snd kv"
    by (simp add: alice_def bob_def)
  have 3: "\<forall>dv\<in>set [desk, wall]. \<forall>el\<in>set [calendar, minutes]. 0 \<le> compatibility office dv el"
    by (simp add: office_def calculate_compatibility_def dot_def desk_def wall_def calendar_def
        minutes_def plain_def)
  have 4: "\<forall>dv\<in>set []. \<forall>el\<in>set [calendar, minutes]. 0 \<le> compatibility office dv el"
    by simp
  have "\<not> isl (pre_process_objects office [calendar, minutes] [] [alice, bob])"
    by code_simp
  then have 5: "pre_process_objects office [calendar, minutes] [] [alice, bob] =
      Inr (projr (pre_process_objects office [calendar, minutes] [] [alice, bob]))"
    by simp
  have 6: "element_user_imp (projr (pre_process_objects office [calendar, minutes] [] [alice, bob])) 0 1 = 1 / 4"
    by code_simp
  have len: "length [calendar, minutes] = 2" "length [desk, wall] = 2" "length [alice, bob] = 2"
    "length ([] :: device list) = 0"
    by simp_all
  have lt: "(0::nat) < 2" "(1::nat) < 2" by simp_all
  note office = pre_process_objects_normalized [OF office_matrices_returned 1 2 3, of 2 "[0]",
      unfolded len]
  note empty = pre_process_objects_normalized [OF 5 1 2 4, of 2 "[0]", unfolded len]
  from office lt have a: "0 \<le> element_user_imp office_matrices 0 1 \<and> element_user_imp office_matrices 0 1 \<le> 1"
    by blast
  from office lt have b: "0 \<le> element_device_comp office_matrices 0 1 \<and>
      element_device_comp office_matrices 0 1 \<le> 1" by blast
  from office lt have c: "0 \<le> element_device_imp office_matrices 0 1 \<and>
      element_device_imp office_matrices 0 1 \<le> 1" by blast
  from office lt have "normalized (replicate 2 0) = Inr (replicate 2 0)" by blast
  then have d: "normalized [0, 0] = Inr [0, 0]" by (simp add: numeral_2_eq_2)
  from empty lt have e: "element_user_imp
      (projr (pre_process_objects office [calendar, minutes] [] [alice, bob])) 0 1 \<le> 1" by blast
  from a b c d 6 e show ?thesis by blast
qed

section \<open>Preprocessing: the refinement step\<close>

lemma count_nonzero_card:
  "count_nonzero v = card {i. i < length v \<and> v ! i}"
  by (simp add: count_nonzero_def length_filter_conv_card)

lemma count_nonzero_one_unique:
  assumes "count_nonzero v = 1" and "u < length v" and "v ! u" and "u' < length v" and "v ! u'"
  shows "u' = u"
proof (rule ccontr)
  assume "u' \<noteq> u"
  then have "card {u, u'} = 2" by simp
  moreover have "{u, u'} \<subseteq> {i. i < length v \<and> v ! i}" using assms by simp
  moreover have "finite {i. i < length v \<and> v ! i}" by simp
  ultimately have "2 \<le> card {i. i < length v \<and> v ! i}" by (metis card_mono)
  with assms(1) show False by (simp add: count_nonzero_card)
qed

lemma revoke_others:
  "fold (\<lambda>(u, v) m. if v = False then set_cell m u e False else m) (enumerate k both) uea u' e' \<longleftrightarrow>
     uea u' e' \<and> \<not> (e' = e \<and> k \<le> u' \<and> u' < k + length both \<and> \<not> both ! (u' - k))"
proof (induction both arbitrary: k uea)
  case Nil
  then show ?case by simp
next
  case (Cons c both)
  show ?case
    unfolding enumerate_simps fold_Cons comp_def prod.case Cons.IH
    by (auto simp add: set_cell_apply nth_Cons' Suc_diff_le)
qed

text \<open>
  C2, as the code has it. When the device has more than one user and exactly one of
  them, \<open>u\<close>, also has access to the element, the step sets
  \<^verbatim>\<open>element_device_imp[e, d]\<close> to 0 and changes no other entry of that matrix; it keeps
  the access of \<open>u\<close> to the element and takes the access to the element away from every
  other user; the access to other elements is unchanged. The loop of line 357 tests
  \<^verbatim>\<open>v == 0\<close>, which holds for every user but \<open>u\<close>.
\<close>

theorem refinement_keeps_single_user:
  assumes "count_nonzero (column uda num_users d) > 1"
    and "count_nonzero (map2 (\<and>) (column uea num_users e) (column uda num_users d)) = 1"
    and "u < num_users" and "uea u e" and "uda u d"
    and "refine_pair num_users uda d e (edi, uea) = (edi', uea')"
  shows "edi' e d = 0 \<and> (\<forall>i j. (i, j) \<noteq> (e, d) \<longrightarrow> edi' i j = edi i j) \<and>
         uea' u e \<and> (\<forall>u'<num_users. u' \<noteq> u \<longrightarrow> \<not> uea' u' e) \<and>
         (\<forall>u' e'. e' \<noteq> e \<longrightarrow> uea' u' e' = uea u' e')"
proof -
  let ?comp = "map2 (\<and>) (column uea num_users e) (column uda num_users d)"
  have len: "length ?comp = num_users" by simp
  have nth: "?comp ! i \<longleftrightarrow> uea i e \<and> uda i d" if "i < num_users" for i using that by simp
  from assms(1,2,6) have edi': "edi' = set_cell edi e d 0"
    and uea': "uea' = fold (\<lambda>(u, v) m. if v = False then set_cell m u e False else m)
                          (enumerate 0 ?comp) uea"
    by (simp_all add: refine_pair_def Let_def)
  have only: "\<not> ?comp ! u'" if "u' < num_users" "u' \<noteq> u" for u'
  proof
    assume "?comp ! u'"
    from count_nonzero_one_unique [OF assms(2), of u u'] this that assms(3,4,5) nth [of u] len
    show False by simp
  qed
  have 1: "edi' e d = 0 \<and> (\<forall>i j. (i, j) \<noteq> (e, d) \<longrightarrow> edi' i j = edi i j)"
    by (auto simp add: edi' set_cell_apply)
  have 2: "uea' u e" using assms(3,4,5) nth [of u] unfolding uea' revoke_others len by simp
  have 3: "\<forall>u'<num_users. u' \<noteq> u \<longrightarrow> \<not> uea' u' e"
    using only unfolding uea' revoke_others len by simp
  have 4: "\<forall>u' e'. e' \<noteq> e \<longrightarrow> uea' u' e' = uea u' e'"
    unfolding uea' revoke_others by simp
  from 1 2 3 4 show ?thesis by blast
qed

theorem refinement_keeps_single_user_witness:
  "fst (refine_pair 3 board_device_access 0 0 (memo_device_imp, memo_element_access)) 0 0 = 0 \<and>
   snd (refine_pair 3 board_device_access 0 0 (memo_device_imp, memo_element_access)) 0 0 \<and>
   \<not> snd (refine_pair 3 board_device_access 0 0 (memo_device_imp, memo_element_access)) 1 0 \<and>
   \<not> snd (refine_pair 3 board_device_access 0 0 (memo_device_imp, memo_element_access)) 2 0"
proof -
  have 1: "count_nonzero (column board_device_access 3 0) > 1" by code_simp
  have 2: "count_nonzero (map2 (\<and>) (column memo_element_access 3 0) (column board_device_access 3 0)) = 1"
    by code_simp
  have 3: "(0::nat) < 3" by simp
  have 4: "memo_element_access 0 0" by (simp add: memo_element_access_def)
  have 5: "board_device_access 0 0" by (simp add: board_device_access_def)
  have 6: "refine_pair 3 board_device_access 0 0 (memo_device_imp, memo_element_access) =
     (fst (refine_pair 3 board_device_access 0 0 (memo_device_imp, memo_element_access)),
      snd (refine_pair 3 board_device_access 0 0 (memo_device_imp, memo_element_access)))"
    by simp
  from refinement_keeps_single_user [OF 1 2 3 4 5 6] show ?thesis by simp
qed

text \<open>
  The claim as the spec words it (the single user loses the access, nobody else's access
  changes) fails at the board: Bob, the single user of the board with access to the memo,
  keeps it, and Carol, who is not at the board, loses hers although the memo has
  importance 1 for her.
\<close>

theorem refinement_revokes_single_user_counterexample:
  "count_nonzero (column board_device_access 3 0) > 1 \<and>
   count_nonzero (map2 (\<and>) (column memo_element_access 3 0) (column board_device_access 3 0)) = 1 \<and>
   board_device_access 0 0 \<and> memo_element_access 0 0 \<and>
   snd (refine_pair 3 board_device_access 0 0 (memo_device_imp, memo_element_access)) 0 0 \<and>
   memo_element_access 1 0 \<and>
   \<not> snd (refine_pair 3 board_device_access 0 0 (memo_device_imp, memo_element_access)) 1 0 \<and>
   user_element_access (projr (pre_process_objects office [memo] [board] [bob, carol, dana])) 0 0 \<and>
   element_user_imp (projr (pre_process_objects office [memo] [board] [bob, carol, dana])) 0 1 = 1 \<and>
   \<not> user_element_access (projr (pre_process_objects office [memo] [board] [bob, carol, dana])) 1 0"
  by code_simp


section \<open>Preprocessing: independence of the enumeration order\<close>

lemma element_name_index_Some:
  assumes "element_name_index elements n = Some i"
  shows "i < length elements \<and> element.name (elements ! i) = n"
proof -
  from assms have "(n, i) \<in> set (zip (map element.name elements) [0..<length elements])"
    unfolding element_name_index_def by (auto dest: map_of_SomeD)
  then show ?thesis by (auto simp add: set_zip)
qed

lemma set_cell_commute:
  "i \<noteq> i' \<Longrightarrow> set_cell (set_cell m i j v) i' j' v' = set_cell (set_cell m i' j' v') i j v"
  by (auto simp add: set_cell_def fun_eq_iff)

lemma override_commute:
  assumes "fst x = fst y \<longrightarrow> x = y"
  shows "(case x of (element_name, imp) \<Rightarrow> \<lambda>m.
            case element_name_index elements element_name of None \<Rightarrow> m | Some i \<Rightarrow> set_cell m i u imp) \<circ>
         (case y of (element_name, imp) \<Rightarrow> \<lambda>m.
            case element_name_index elements element_name of None \<Rightarrow> m | Some i \<Rightarrow> set_cell m i u imp) =
         (case y of (element_name, imp) \<Rightarrow> \<lambda>m.
            case element_name_index elements element_name of None \<Rightarrow> m | Some i \<Rightarrow> set_cell m i u imp) \<circ>
         (case x of (element_name, imp) \<Rightarrow> \<lambda>m.
            case element_name_index elements element_name of None \<Rightarrow> m | Some i \<Rightarrow> set_cell m i u imp)"
proof (cases "x = y")
  case True
  then show ?thesis by simp
next
  case False
  obtain n v where x: "x = (n, v)" by (cases x)
  obtain n' v' where y: "y = (n', v')" by (cases y)
  from False assms x y have ne: "n \<noteq> n'" by auto
  show ?thesis
  proof (cases "element_name_index elements n")
    case None
    then show ?thesis by (simp add: x y fun_eq_iff split: option.splits)
  next
    case (Some i)
    show ?thesis
    proof (cases "element_name_index elements n'")
      case None
      then show ?thesis by (simp add: x y fun_eq_iff split: option.splits)
    next
      case (Some i')
      from element_name_index_Some [OF \<open>element_name_index elements n = Some i\<close>]
        element_name_index_Some [OF Some] ne
      have "i \<noteq> i'" by auto
      then show ?thesis
        using \<open>element_name_index elements n = Some i\<close> Some
        by (simp add: x y fun_eq_iff set_cell_commute)
    qed
  qed
qed

lemma distinct_keys_unique:
  assumes "distinct (map fst d)" and "x \<in> set d" and "y \<in> set d" and "fst x = fst y"
  shows "x = y"
  using assms by (metis eq_key_imp_eq_value prod.collapse)

lemma user_importance_column_slot:
  assumes "distinct (map fst (user.importance (users ! u)))"
  shows "user_importance_column env' elements users u m =
         user_importance_column env elements users u m"
proof -
  let ?d = "user.importance (users ! u)"
  let ?f = "\<lambda>(element_name, imp) m.
             case element_name_index elements element_name of None \<Rightarrow> m | Some i \<Rightarrow> set_cell m i u imp"
  have "fold ?f (dict_items (str_slot env') ?d) = fold ?f (dict_items (str_slot env) ?d)"
  proof (rule fold_multiset_equiv)
    fix x y assume "x \<in> set (dict_items (str_slot env') ?d)" "y \<in> set (dict_items (str_slot env') ?d)"
    then have "x \<in> set ?d" "y \<in> set ?d" by (simp_all add: dict_items_def)
    with assms have "fst x = fst y \<longrightarrow> x = y" by (auto intro: distinct_keys_unique)
    then show "?f x \<circ> ?f y = ?f y \<circ> ?f x" by (rule override_commute)
  next
    show "mset (dict_items (str_slot env') ?d) = mset (dict_items (str_slot env) ?d)"
      by (simp add: dict_items_def)
  qed
  then show ?thesis by (simp add: user_importance_column_def)
qed

lemma fold_cong_set: "(\<And>x s. x \<in> set xs \<Longrightarrow> f x s = g x s) \<Longrightarrow> fold f xs s = fold g xs s"
  by (induction xs arbitrary: s) simp_all

lemma initial_element_user_imp_slot:
  assumes "\<forall>us\<in>set users. distinct (map fst (user.importance us))"
  shows "initial_element_user_imp env' elements users =
         initial_element_user_imp env elements users"
  unfolding initial_element_user_imp_def
proof (rule fold_cong_set)
  fix u and m :: "real matrix" assume "u \<in> set [0..<length users]"
  then have "users ! u \<in> set users" by simp
  with assms have "distinct (map fst (user.importance (users ! u)))" by blast
  then show "user_importance_column env' elements users u m =
         user_importance_column env elements users u m"
    by (rule user_importance_column_slot)
qed

text \<open>
  C8. The five matrices are a function of the elements, devices and users and of the two
  methods \<^verbatim>\<open>user_has_access\<close> and \<^verbatim>\<open>calculate_compatibility\<close> alone: two runs on the
  same input give equal results, in whatever order each run enumerates the dicts of
  overrides.
\<close>

theorem pre_process_objects_reproducible:
  assumes "\<forall>us\<in>set users. distinct (map fst (user.importance us))"
    and "user_has_access env' = user_has_access env"
    and "compatibility env' = compatibility env"
  shows "pre_process_objects env' elements devices users =
         pre_process_objects env elements devices users"
proof -
  have 1: "compatibility_column env' elements devices = compatibility_column env elements devices"
    by (simp add: compatibility_column_def fun_eq_iff assms(3))
  have 2: "element_access_cell env' elements users = element_access_cell env elements users"
    by (simp add: element_access_cell_def fun_eq_iff assms(2))
  show ?thesis
    unfolding pre_process_objects_def 1 2
      initial_element_user_imp_slot [OF assms(1), where env' = env' and env = env] ..
qed

text \<open>
  Two runs that enumerate Bob's overrides in opposite orders: by insertion, and with the
  longer name first.
\<close>

theorem pre_process_objects_reproducible_witness:
  "dict_items (\<lambda>k. 10 - length k) (user.importance bob) \<noteq>
     dict_items (str_slot office) (user.importance bob) \<and>
   pre_process_objects (office\<lparr>str_slot := (\<lambda>k. 10 - length k)\<rparr>)
     [calendar, minutes] [desk, wall] [alice, bob] =
   pre_process_objects office [calendar, minutes] [desk, wall] [alice, bob]"
proof -
  have 0: "dict_items (\<lambda>k. 10 - length k) (user.importance bob) \<noteq>
     dict_items (str_slot office) (user.importance bob)"
    by code_simp
  have 1: "\<forall>us\<in>set [alice, bob]. distinct (map fst (user.importance us))"
    by (simp add: alice_def bob_def)
  have 2: "user_has_access (office\<lparr>str_slot := (\<lambda>k. 10 - length k)\<rparr>) = user_has_access office"
    and 3: "compatibility (office\<lparr>str_slot := (\<lambda>k. 10 - length k)\<rparr>) = compatibility office"
    by simp_all
  from pre_process_objects_reproducible [OF 1 2 3] 0 show ?thesis by blast
qed

section \<open>The returned mapping\<close>

lemma map_of_fold_update_empty:
  "map_of (fold (\<lambda>device output. AList.update device [] output) ds out0) =
     (\<lambda>d. if d \<in> set ds then Some [] else map_of out0 d)"
  by (induction ds arbitrary: out0) (auto simp add: update_conv' fun_eq_iff)

lemma distinct_fold_update_empty:
  "distinct (map fst out0) \<Longrightarrow>
   distinct (map fst (fold (\<lambda>device output. AList.update device [] output) ds out0))"
  by (induction ds arbitrary: out0) (simp_all add: distinct_update)

lemma map_of_empty_output:
  "map_of (empty_output devices) = (\<lambda>d. if d \<in> set devices then Some [] else None)"
  by (auto simp add: empty_output_def map_of_fold_update_empty fun_eq_iff)

lemma distinct_empty_output: "distinct (map fst (empty_output devices))"
  by (simp add: empty_output_def distinct_fold_update_empty)

lemma keys_empty_output: "fst ` set (empty_output devices) = set devices"
proof -
  have "dom (map_of (empty_output devices)) = set devices"
    by (auto simp add: map_of_empty_output split: if_splits)
  then show ?thesis by (simp add: dom_map_of_conv_image_fst)
qed

lemma map_fst_resolve: "map fst (resolve elements out) = map fst out"
  by (simp add: resolve_def case_prod_unfold)

lemma map_of_resolve:
  "map_of (resolve elements out) d = map_option (map (\<lambda>e. elements ! e)) (map_of out d)"
  by (induction out) (auto simp add: resolve_def)

lemma resolve_empty_output:
  "map_of (resolve elements (empty_output devices)) = (\<lambda>d. if d \<in> set devices then Some [] else None)"
  by (simp add: fun_eq_iff map_of_resolve map_of_empty_output)

lemma returned_degenerate:
  assumes "elements = [] \<or> devices = [] \<or> users = []"
  shows "returned (optimize env elements devices users) =
           Inr (resolve (sort_key element.name elements) (empty_output (sort_key device.name devices)), 0)"
proof -
  have "length (sort_key user.name users) = 0 \<or> length (sort_key device.name devices) = 0
        \<or> length (sort_key element.name elements) = 0"
    using assms by auto
  then show ?thesis
    unfolding optimize_def Let_def by (simp only: if_True outcome.simps)
qed

lemma returned_not_optimal:
  assumes "elements \<noteq> []" and "devices \<noteq> []" and "users \<noteq> []"
    and "pre_process_objects env (sort_key element.name elements) (sort_key device.name devices)
           (sort_key user.name users) = Inr mats"
    and "build_model (sort_key element.name elements) (sort_key device.name devices)
           (sort_key user.name users) mats = Inr m"
    and "fst (solve env m) \<noteq> OPTIMAL"
  shows "returned (optimize env elements devices users) =
           Inr (resolve (sort_key element.name elements) (empty_output (sort_key device.name devices)),
                end_time env - start_time env)"
proof -
  have ne: "\<not> (length (sort_key user.name users) = 0 \<or> length (sort_key device.name devices) = 0
        \<or> length (sort_key element.name elements) = 0)"
    using assms(1-3) by auto
  obtain st v where sv: "solve env m = (st, v)" by (cases "solve env m")
  with assms(6) have "st \<noteq> OPTIMAL" by simp
  then show ?thesis
    unfolding optimize_def Let_def
    by (simp only: ne if_False assms(4,5) sum.case sv prod.case if_True outcome.simps not_False_eq_True)
qed

lemma returned_optimal:
  assumes "elements \<noteq> []" and "devices \<noteq> []" and "users \<noteq> []"
    and "pre_process_objects env (sort_key element.name elements) (sort_key device.name devices)
           (sort_key user.name users) = Inr mats"
    and "build_model (sort_key element.name elements) (sort_key device.name devices)
           (sort_key user.name users) mats = Inr m"
    and "solve env m = (OPTIMAL, value)"
    and "for_each (dict_items (key_slot env)
            (map (\<lambda>(e, d). ((e, d), X e d))
               (x_keys (length (sort_key element.name elements)) (length (sort_key device.name devices)))))
          (fill_cell value (sort_key device.name devices))
          (sort_key element.name elements, empty_output (sort_key device.name devices)) = Inr (els', out')"
  shows "returned (optimize env elements devices users) =
           Inr (resolve els' out', end_time env - start_time env) \<and>
         elements_after (optimize env elements devices users) = els'"
proof -
  have ne: "\<not> (length (sort_key user.name users) = 0 \<or> length (sort_key device.name devices) = 0
        \<or> length (sort_key element.name elements) = 0)"
    using assms(1-3) by auto
  show ?thesis
    unfolding optimize_def Let_def
    by (simp only: ne if_False assms(4,5,6,7) sum.case prod.case outcome.simps not_not refl if_False simp_thms)
qed


lemma fill_cell_cases:
  assumes "fill_cell value devices ((e, d), v) (els, out) = Inr (els1, out1)"
  shows "(value v \<noteq> 1 \<and> els1 = els \<and> out1 = out) \<or>
         (value v = 1 \<and> els1 = els[e := record_size (device.name (devices ! d)) (value (S e d)) (els ! e)] \<and>
          (\<exists>l. map_of out (devices ! d) = Some l \<and> out1 = AList.update (devices ! d) (l @ [e]) out))"
  using assms by (auto simp add: fill_cell_def Let_def split: if_splits option.splits)

lemma map_of_Some_key: "map_of out k = Some l \<Longrightarrow> k \<in> fst ` set out"
  using map_of_SomeD by force

lemma map_update_same: "(map f xs)[i := f (xs ! i)] = map f xs"
  by (simp flip: map_update)

lemma fill_cell_keys:
  assumes "fill_cell value devices ((e, d), v) (els, out) = Inr (els1, out1)"
  shows "map fst out1 = map fst out"
  using fill_cell_cases [OF assms] by (auto simp add: update_keys map_of_Some_key)

lemma fill_output_map_of:
  assumes "for_each items (fill_cell value devices) (els, out) = Inr (els', out')"
  shows "map_of out' dv = map_option (\<lambda>l. l @ assigned_to value devices items dv) (map_of out dv)"
  using assms
proof (induction items arbitrary: els out)
  case Nil
  then show ?case by (simp add: assigned_to_def option.map_ident)
next
  case (Cons item rest)
  obtain e d v where item: "item = ((e, d), v)" by (cases item) auto
  from Cons.prems obtain els1 out1 where
    step: "fill_cell value devices ((e, d), v) (els, out) = Inr (els1, out1)"
    and rest: "for_each rest (fill_cell value devices) (els1, out1) = Inr (els', out')"
    by (auto simp add: item bind_error_Inr_iff)
  note ih = Cons.IH [OF rest]
  from fill_cell_cases [OF step] show ?case
  proof (elim disjE conjE exE)
    assume "value v \<noteq> 1" "els1 = els" "out1 = out"
    then show ?thesis using ih by (simp add: assigned_to_def item)
  next
    fix l assume v: "value v = 1" and l: "map_of out (devices ! d) = Some l"
      and out1: "out1 = AList.update (devices ! d) (l @ [e]) out"
    show ?thesis
    proof (cases "dv = devices ! d")
      case True
      then show ?thesis using ih v l out1 by (simp add: assigned_to_def item update_conv')
    next
      case False
      then have "devices ! d \<noteq> dv" by simp
      then show ?thesis using ih v l out1 by (simp add: assigned_to_def item update_conv')
    qed
  qed
qed

lemma fill_output_keys:
  assumes "for_each items (fill_cell value devices) (els, out) = Inr (els', out')"
  shows "map fst out' = map fst out"
  using assms
proof (induction items arbitrary: els out)
  case Nil
  then show ?case by simp
next
  case (Cons item rest)
  obtain e d v where item: "item = ((e, d), v)" by (cases item) auto
  from Cons.prems obtain els1 out1 where
    step: "fill_cell value devices ((e, d), v) (els, out) = Inr (els1, out1)"
    and rest: "for_each rest (fill_cell value devices) (els1, out1) = Inr (els', out')"
    by (auto simp add: item bind_error_Inr_iff)
  have "map fst out1 = map fst out"
    by (rule fill_cell_keys [OF step])
  with Cons.IH [OF rest] show ?case by simp
qed

lemma fill_output_total:
  assumes "\<forall>item\<in>set items. devices ! snd (fst item) \<in> fst ` set out"
  shows "\<exists>els' out'. for_each items (fill_cell value devices) (els, out) = Inr (els', out')"
  using assms
proof (induction items arbitrary: els out)
  case Nil
  then show ?case by simp
next
  case (Cons item rest)
  obtain e d v where item: "item = ((e, d), v)" by (cases item) auto
  from Cons.prems have key: "devices ! d \<in> fst ` set out" by (simp add: item)
  then obtain l where l: "map_of out (devices ! d) = Some l"
    by (metis domD dom_map_of_conv_image_fst)
  then have "\<exists>els1 out1. fill_cell value devices ((e, d), v) (els, out) = Inr (els1, out1)"
    by (simp add: fill_cell_def Let_def)
  then obtain els1 out1 where step: "fill_cell value devices ((e, d), v) (els, out) = Inr (els1, out1)"
    by blast
  have "map fst out1 = map fst out"
    by (rule fill_cell_keys [OF step])
  then have "fst ` set out1 = fst ` set out" by (metis set_map)
  with Cons.prems have "\<forall>item\<in>set rest. devices ! snd (fst item) \<in> fst ` set out1" by simp
  from Cons.IH [OF this, of els1] step show ?case by (auto simp add: item)
qed

lemma forget_size_record_size [simp]: "forget_size (record_size n v el) = forget_size el"
  by (simp add: forget_size_def record_size_def)

lemma fill_output_elements:
  assumes "for_each items (fill_cell value devices) (els, out) = Inr (els', out')"
  shows "map forget_size els' = map forget_size els"
  using assms
proof (induction items arbitrary: els out)
  case Nil
  then show ?case by simp
next
  case (Cons item rest)
  obtain e d v where item: "item = ((e, d), v)" by (cases item) auto
  from Cons.prems obtain els1 out1 where
    step: "fill_cell value devices ((e, d), v) (els, out) = Inr (els1, out1)"
    and rest: "for_each rest (fill_cell value devices) (els1, out1) = Inr (els', out')"
    by (auto simp add: item bind_error_Inr_iff)
  have "map forget_size els1 = map forget_size els"
    using fill_cell_cases [OF step] by (auto simp add: map_update map_update_same)
  with Cons.IH [OF rest] show ?case by simp
qed

text \<open>
  C6. When the list of elements, of devices or of users is empty, \<open>optimize\<close> returns
  the mapping whose keys are the input devices, each with the empty list, and the time
  0, whatever preprocessing and the solver would have done.
\<close>

theorem optimize_degenerate:
  assumes "elements = [] \<or> devices = [] \<or> users = []"
  shows "\<exists>output. returned (optimize env elements devices users) = Inr (output, 0) \<and>
           distinct (map fst output) \<and>
           map_of output = (\<lambda>d. if d \<in> set devices then Some [] else None)"
proof -
  let ?out = "resolve (sort_key element.name elements) (empty_output (sort_key device.name devices))"
  have "returned (optimize env elements devices users) = Inr (?out, 0)"
    using assms by (rule returned_degenerate)
  moreover have "distinct (map fst ?out)"
    by (simp add: map_fst_resolve distinct_empty_output)
  moreover have "map_of ?out = (\<lambda>d. if d \<in> set devices then Some [] else None)"
    by (simp add: resolve_empty_output)
  ultimately show ?thesis by blast
qed

theorem optimize_degenerate_witness:
  "\<exists>out. returned (optimize office [] [wall, desk] [bob, alice]) = Inr (out, 0) \<and>
         map_of out wall = Some [] \<and> map_of out desk = Some []"
proof -
  have "[] = [] \<or> [wall, desk] = [] \<or> [bob, alice] = []" by simp
  from optimize_degenerate [OF this, of office] show ?thesis by auto
qed


text \<open>
  C5. When the solver reports a status other than optimal, \<open>optimize\<close> returns, without
  raising, the mapping whose keys are the input devices, each with the empty list, and
  the time between the two readings of the clock.
\<close>

theorem optimize_not_optimal:
  assumes "elements \<noteq> []" and "devices \<noteq> []" and "users \<noteq> []"
    and "pre_process_objects env (sort_key element.name elements) (sort_key device.name devices)
           (sort_key user.name users) = Inr mats"
    and "build_model (sort_key element.name elements) (sort_key device.name devices)
           (sort_key user.name users) mats = Inr m"
    and "fst (solve env m) \<noteq> OPTIMAL"
  shows "\<exists>output. returned (optimize env elements devices users) =
                    Inr (output, end_time env - start_time env) \<and>
           distinct (map fst output) \<and>
           map_of output = (\<lambda>d. if d \<in> set devices then Some [] else None)"
proof -
  let ?out = "resolve (sort_key element.name elements) (empty_output (sort_key device.name devices))"
  have "returned (optimize env elements devices users) = Inr (?out, end_time env - start_time env)"
    using assms by (rule returned_not_optimal)
  moreover have "distinct (map fst ?out)"
    by (simp add: map_fst_resolve distinct_empty_output)
  moreover have "map_of ?out = (\<lambda>d. if d \<in> set devices then Some [] else None)"
    by (simp add: resolve_empty_output)
  ultimately show ?thesis by blast
qed

theorem optimize_not_optimal_witness:
  "\<exists>out. returned (optimize office_without_solution [minutes, calendar] [wall, desk] [bob, alice])
            = Inr (out, 2) \<and>
         map_of out wall = Some [] \<and> map_of out desk = Some []"
proof -
  let ?mats = "projr (pre_process_objects office_without_solution [calendar, minutes] [desk, wall] [alice, bob])"
  let ?m = "projr (build_model [calendar, minutes] [desk, wall] [alice, bob] ?mats)"
  have "\<not> isl (pre_process_objects office_without_solution [calendar, minutes] [desk, wall] [alice, bob])"
    by code_simp
  then have 1: "pre_process_objects office_without_solution (sort_key element.name [minutes, calendar])
      (sort_key device.name [wall, desk]) (sort_key user.name [bob, alice]) = Inr ?mats"
    unfolding office_sorted by simp
  have "\<not> isl (build_model [calendar, minutes] [desk, wall] [alice, bob] ?mats)"
    by code_simp
  then have 2: "build_model (sort_key element.name [minutes, calendar])
      (sort_key device.name [wall, desk]) (sort_key user.name [bob, alice]) ?mats = Inr ?m"
    unfolding office_sorted by simp
  have 3: "fst (solve office_without_solution ?m) \<noteq> OPTIMAL"
    by (simp add: office_without_solution_def)
  have t: "end_time office_without_solution - start_time office_without_solution = 2"
    by (simp add: office_without_solution_def office_def)
  have ne: "[minutes, calendar] \<noteq> []" "[wall, desk] \<noteq> []" "[bob, alice] \<noteq> []" by simp_all
  from optimize_not_optimal [OF ne 1 2 3] show ?thesis unfolding t by auto
qed


section \<open>The caller's lists\<close>

lemma optimize_devices_users_after:
  "devices_after (optimize env elements devices users) = sort_key device.name devices \<and>
   users_after (optimize env elements devices users) = sort_key user.name users"
  unfolding optimize_def Let_def
  by (simp split: sum.splits prod.splits)

lemma optimize_elements_after:
  "map forget_size (elements_after (optimize env elements devices users)) =
   map forget_size (sort_key element.name elements)"
  unfolding optimize_def Let_def
  by (auto split: sum.splits prod.splits dest: fill_output_elements)

lemma name_forget_size: "element.name (forget_size el) = element.name el"
  by (simp add: forget_size_def)

text \<open>
  C9. After every call of \<open>optimize\<close>, whatever it returns or raises, the caller's lists
  of devices and of users are the input lists sorted by name, and the list of elements is
  the input list sorted by name whose objects differ from the input's at most in the
  sizes recorded by the last loop.
\<close>

theorem optimize_sorts_inputs:
  "devices_after (optimize env elements devices users) = sort_key device.name devices \<and>
   users_after (optimize env elements devices users) = sort_key user.name users \<and>
   map forget_size (elements_after (optimize env elements devices users)) =
     map forget_size (sort_key element.name elements) \<and>
   sorted (map device.name (devices_after (optimize env elements devices users))) \<and>
   sorted (map user.name (users_after (optimize env elements devices users))) \<and>
   sorted (map element.name (elements_after (optimize env elements devices users))) \<and>
   mset (devices_after (optimize env elements devices users)) = mset devices \<and>
   mset (users_after (optimize env elements devices users)) = mset users \<and>
   mset (map forget_size (elements_after (optimize env elements devices users))) =
     mset (map forget_size elements)"
proof -
  let ?r = "optimize env elements devices users"
  have du: "devices_after ?r = sort_key device.name devices" "users_after ?r = sort_key user.name users"
    using optimize_devices_users_after [of env elements devices users] by simp_all
  have el: "map forget_size (elements_after ?r) = map forget_size (sort_key element.name elements)"
    by (rule optimize_elements_after)
  have "map element.name (elements_after ?r) = map (element.name \<circ> forget_size) (elements_after ?r)"
    by (simp add: name_forget_size comp_def)
  also have "\<dots> = map element.name (map forget_size (elements_after ?r))" by simp
  also have "\<dots> = map element.name (map forget_size (sort_key element.name elements))"
    by (simp only: el)
  also have "\<dots> = map element.name (sort_key element.name elements)"
    by (simp add: name_forget_size comp_def)
  finally have names: "sorted (map element.name (elements_after ?r))" by simp
  have "mset (map forget_size (elements_after ?r)) = mset (map forget_size elements)"
    by (simp only: el) simp
  with du el names show ?thesis by simp
qed

theorem optimize_sorts_inputs_witness:
  "devices_after (optimize office [minutes, calendar] [wall, desk] [bob, alice]) = [desk, wall] \<and>
   users_after (optimize office [minutes, calendar] [wall, desk] [bob, alice]) = [alice, bob] \<and>
   map forget_size (elements_after (optimize office [minutes, calendar] [wall, desk] [bob, alice])) =
     map forget_size [calendar, minutes]"
  using optimize_sorts_inputs [of office "[minutes, calendar]" "[wall, desk]" "[bob, alice]"]
  unfolding office_sorted by simp


section \<open>The constraints of the model\<close>

lemma fold_product:
  "fold (\<lambda>d. fold (f d) es) ds st = fold (\<lambda>(d, e). f d e) (List.product ds es) st"
proof (induction ds arbitrary: st)
  case Nil
  then show ?case by simp
next
  case (Cons d ds)
  have "fold (\<lambda>(d, e). f d e) (map (Pair d) es) st = fold (f d) es st" for st
    by (induction es arbitrary: st) simp_all
  with Cons show ?case by simp
qed

lemma np_dot_columns:
  "np_dot (column a n d) (column b n e) \<longleftrightarrow> (\<exists>u<n. a u d \<and> b u e)"
proof -
  have "np_dot (column a n d) (column b n e) \<longleftrightarrow>
        (\<exists>i<n. column a n d ! i \<and> column b n e ! i)"
    by (auto simp add: np_dot_def list_ex_iff set_zip)
  then show ?thesis by auto
qed

lemma privacy_cells:
  "fold (\<lambda>(d, e). privacy_cell n mats d e) ps m i j \<longleftrightarrow>
     m i j \<and> \<not> ((j, i) \<in> set ps \<and> \<not> np_dot (column (user_device_access mats) n j)
                                              (column (user_element_access mats) n i))"
proof (induction ps arbitrary: m)
  case Nil
  then show ?case by simp
next
  case (Cons p ps)
  obtain d e where p: "p = (d, e)" by (cases p)
  show ?case
    unfolding p fold_Cons comp_def prod.case Cons.IH
    by (auto simp add: privacy_cell_def set_cell_apply)
qed

lemma initial_element_device_access_iff:
  assumes "e < num_elements" and "d < num_devices"
  shows "initial_element_device_access num_elements num_devices num_users mats e d \<longleftrightarrow>
         (\<exists>u<num_users. user_device_access mats u d \<and> user_element_access mats u e)"
proof -
  have "(d, e) \<in> set (List.product [0..<num_devices] [0..<num_elements])" using assms by simp
  then show ?thesis
    unfolding initial_element_device_access_def fold_product privacy_cells np_dot_columns
    by blast
qed

lemma pruning_cell_grows: "set (snd st) \<subseteq> set (snd (pruning_cell elements devices mats d e st))"
  by (cases st) (auto simp add: pruning_cell_def Let_def)

lemma pruning_cell_stays_False:
  "fst st i j = False \<Longrightarrow> fst (pruning_cell elements devices mats d e st) i j = False"
  by (cases st) (auto simp add: pruning_cell_def Let_def set_cell_apply)

lemma pruning_cell_visit:
  "fst st e d = False \<Longrightarrow>
   forbid e d (privacy_name elements devices e d) \<in> set (snd (pruning_cell elements devices mats d e st))"
  by (cases st) (auto simp add: pruning_cell_def Let_def privacy_name_def)

lemma pruning_cell_False_forbidden:
  assumes "fst (pruning_cell elements devices mats d e st) i j = False"
  shows "fst st i j = False \<or>
         (\<exists>n. forbid i j n \<in> set (snd (pruning_cell elements devices mats d e st)))"
  using assms by (cases st) (auto simp add: pruning_cell_def Let_def set_cell_apply split: if_splits)

lemma pruning_cells_grow:
  "set (snd st) \<subseteq> set (snd (fold (\<lambda>(d, e). pruning_cell elements devices mats d e) ps st))"
proof (induction ps arbitrary: st)
  case Nil
  then show ?case by simp
next
  case (Cons p ps)
  obtain d e where p: "p = (d, e)" by (cases p)
  from Cons [of "pruning_cell elements devices mats d e st"] pruning_cell_grows [of st elements devices mats d e]
  show ?case by (auto simp add: p)
qed

lemma pruning_cells_privacy:
  assumes "(d, e) \<in> set ps" and "fst st e d = False"
  shows "forbid e d (privacy_name elements devices e d)
           \<in> set (snd (fold (\<lambda>(d, e). pruning_cell elements devices mats d e) ps st))"
  using assms
proof (induction ps arbitrary: st)
  case Nil
  then show ?case by simp
next
  case (Cons p ps)
  obtain d' e' where p: "p = (d', e')" by (cases p)
  let ?st = "pruning_cell elements devices mats d' e' st"
  show ?case
  proof (cases "p = (d, e)")
    case True
    then have "forbid e d (privacy_name elements devices e d) \<in> set (snd ?st)"
      using pruning_cell_visit [OF Cons.prems(2)] p by simp
    then show ?thesis using pruning_cells_grow [of ?st elements devices mats ps] by (auto simp add: p)
  next
    case False
    with Cons.prems(1) have "(d, e) \<in> set ps" by simp
    moreover have "fst ?st e d = False" using Cons.prems(2) by (rule pruning_cell_stays_False)
    ultimately show ?thesis using Cons.IH [of ?st] by (simp add: p)
  qed
qed

lemma pruning_cells_False_forbidden:
  assumes "fst (fold (\<lambda>(d, e). pruning_cell elements devices mats d e) ps st) i j = False"
  shows "fst st i j = False \<or>
         (\<exists>n. forbid i j n \<in> set (snd (fold (\<lambda>(d, e). pruning_cell elements devices mats d e) ps st)))"
  using assms
proof (induction ps arbitrary: st)
  case Nil
  then show ?case by simp
next
  case (Cons p ps)
  obtain d e where p: "p = (d, e)" by (cases p)
  let ?st = "pruning_cell elements devices mats d e st"
  let ?fin = "fold (\<lambda>(d, e). pruning_cell elements devices mats d e) ps ?st"
  from Cons.prems have "fst ?fin i j = False" by (simp add: p)
  from Cons.IH [OF this] show ?case
  proof
    assume "fst ?st i j = False"
    from pruning_cell_False_forbidden [OF this] show ?thesis
    proof
      assume "fst st i j = False" then show ?thesis by simp
    next
      assume "\<exists>n. forbid i j n \<in> set (snd ?st)"
      then show ?thesis using pruning_cells_grow [of ?st elements devices mats ps] by (auto simp add: p)
    qed
  next
    assume "\<exists>n. forbid i j n \<in> set (snd ?fin)"
    then show ?thesis by (simp add: p)
  qed
qed

lemma prune_product:
  "prune elements devices users mats =
     fold (\<lambda>(d, e). pruning_cell elements devices mats d e)
          (List.product [0..<length devices] [0..<length elements])
          (initial_element_device_access (length elements) (length devices) (length users) mats,
           concat (map (device_constraints elements devices) [0..<length devices]))"
  by (simp add: prune_def fold_product)

lemma build_model_constrs:
  assumes "build_model elements devices users mats = Inr m"
  shows "set (snd (prune elements devices users mats)) \<subseteq> set (constrs m)"
  using assms unfolding build_model_def Let_def
  by (auto simp add: bind_error_Inr_iff split: prod.splits)

lemma build_model_total:
  assumes "\<forall>dv\<in>set devices. area dv \<noteq> 0"
  shows "\<exists>m. build_model elements devices users mats = Inr m"
proof -
  have "\<exists>q. for_each [0..<length devices] (quality_of_device (length elements) devices mats) [] = Inr q \<and> True"
  proof (rule for_each_total [where P = "\<lambda>_. True"])
    fix d and t :: "(real \<times> var) list" assume "d \<in> set [0..<length devices]"
    then have "devices ! d \<in> set devices" by simp
    with assms have "area (devices ! d) \<noteq> 0" by blast
    then show "\<exists>t'. quality_of_device (length elements) devices mats d t = Inr t' \<and> True"
      by (simp add: quality_of_device_def)
  qed simp
  then obtain q where "for_each [0..<length devices] (quality_of_device (length elements) devices mats) [] = Inr q"
    by blast
  then show ?thesis
    unfolding build_model_def Let_def by (simp split: prod.splits)
qed

lemma size_constraints_in_model:
  assumes "build_model elements devices users mats = Inr m"
    and "e < length elements" and "d < length devices"
  shows "set (size_constraints elements devices d e) \<subseteq> set (constrs m)"
proof -
  have "set (size_constraints elements devices d e) \<subseteq> set (device_constraints elements devices d)"
    using assms(2) by (auto simp add: device_constraints_def)
  also have "\<dots> \<subseteq> set (concat (map (device_constraints elements devices) [0..<length devices]))"
    using assms(3) by auto
  also have "\<dots> \<subseteq> set (snd (prune elements devices users mats))"
    unfolding prune_product
    using pruning_cells_grow [of "(initial_element_device_access (length elements) (length devices) (length users) mats,
           concat (map (device_constraints elements devices) [0..<length devices]))"]
    by simp
  also have "\<dots> \<subseteq> set (constrs m)" by (rule build_model_constrs [OF assms(1)])
  finally show ?thesis .
qed

lemma feasible_satisfies: "feasible m value \<Longrightarrow> c \<in> set (constrs m) \<Longrightarrow> satisfies value c"
  by (simp add: feasible_def list_all_iff)

text \<open>
  C4. For every element and device the model holds the three indicator constraints of
  lines 91 to 95, so that feasible values have \<open>s[e, d] = 0\<close> when \<open>x[e, d] = 0\<close>, and
  \<open>s[e, d]\<close> between the element's minimal area and the smaller of its maximal area and
  the device's area when \<open>x[e, d] = 1\<close>.
\<close>

theorem size_follows_assignment:
  assumes "build_model elements devices users mats = Inr m"
    and "e < length elements" and "d < length devices"
  shows "GenConstrIndicator (X e d) False (quicksum [S e d]) EQ (const 0) \<in> set (constrs m) \<and>
         GenConstrIndicator (X e d) True (quicksum [S e d]) GE (const (min_area (elements ! e)))
           \<in> set (constrs m) \<and>
         GenConstrIndicator (X e d) True (quicksum [S e d]) LE
           (const (min (max_area (elements ! e)) (area (devices ! d)))) \<in> set (constrs m) \<and>
         (feasible m value \<longrightarrow>
            (value (X e d) = 0 \<longrightarrow> value (S e d) = 0) \<and>
            (value (X e d) = 1 \<longrightarrow>
               min_area (elements ! e) \<le> value (S e d) \<and>
               value (S e d) \<le> min (max_area (elements ! e)) (area (devices ! d))))"
proof -
  let ?c0 = "GenConstrIndicator (X e d) False (quicksum [S e d]) EQ (const 0)"
  let ?c1 = "GenConstrIndicator (X e d) True (quicksum [S e d]) GE (const (min_area (elements ! e)))"
  let ?c2 = "GenConstrIndicator (X e d) True (quicksum [S e d]) LE
           (const (min (max_area (elements ! e)) (area (devices ! d))))"
  have "{?c0, ?c1, ?c2} \<subseteq> set (size_constraints elements devices d e)"
    by (simp add: size_constraints_def Let_def)
  with size_constraints_in_model [OF assms] have mem: "?c0 \<in> set (constrs m)" "?c1 \<in> set (constrs m)"
    "?c2 \<in> set (constrs m)" by auto
  have "(value (X e d) = 0 \<longrightarrow> value (S e d) = 0) \<and>
        (value (X e d) = 1 \<longrightarrow>
               min_area (elements ! e) \<le> value (S e d) \<and>
               value (S e d) \<le> min (max_area (elements ! e)) (area (devices ! d)))"
    if "feasible m value"
    using feasible_satisfies [OF that mem(1)] feasible_satisfies [OF that mem(2)]
      feasible_satisfies [OF that mem(3)]
    by (simp add: quicksum_def const_def)
  with mem show ?thesis by blast
qed

theorem size_follows_assignment_witness:
  "feasible office_model calendar_everywhere \<and> calendar_everywhere (X 0 0) = 1 \<and>
   min_area calendar \<le> calendar_everywhere (S 0 0) \<and>
   calendar_everywhere (S 0 0) \<le> min (max_area calendar) (area desk)"
proof -
  have f: "feasible office_model calendar_everywhere" by code_simp
  have x: "calendar_everywhere (X 0 0) = 1" by (simp add: calendar_everywhere_def)
  have 1: "0 < length [calendar, minutes]" "0 < length [desk, wall]" by simp_all
  from size_follows_assignment [OF office_model_built 1, of calendar_everywhere] f x
  show ?thesis by simp
qed


lemma forbid_feasible:
  "feasible m value \<Longrightarrow> forbid e d n \<in> set (constrs m) \<Longrightarrow> value (X e d) = 0"
  by (drule (1) feasible_satisfies) (simp add: forbid_def quicksum_def const_def)

lemma privacy_in_model:
  assumes "build_model elements devices users mats = Inr m"
    and "e < length elements" and "d < length devices"
  shows "(\<not> initial_element_device_access (length elements) (length devices) (length users) mats e d \<longrightarrow>
            forbid e d (privacy_name elements devices e d) \<in> set (constrs m)) \<and>
         (\<not> fst (prune elements devices users mats) e d \<longrightarrow> (\<exists>n. forbid e d n \<in> set (constrs m)))"
proof -
  let ?st = "(initial_element_device_access (length elements) (length devices) (length users) mats,
           concat (map (device_constraints elements devices) [0..<length devices]))"
  have mem: "(d, e) \<in> set (List.product [0..<length devices] [0..<length elements])"
    using assms(2,3) by simp
  have 1: "forbid e d (privacy_name elements devices e d) \<in> set (constrs m)"
    if "\<not> initial_element_device_access (length elements) (length devices) (length users) mats e d"
  proof -
    from that have "fst ?st e d = False" by simp
    from pruning_cells_privacy [OF mem this, of elements devices mats]
    show ?thesis using build_model_constrs [OF assms(1)] by (auto simp add: prune_product)
  qed
  have 2: "\<exists>n. forbid e d n \<in> set (constrs m)" if "\<not> fst (prune elements devices users mats) e d"
  proof -
    from that have "fst (fold (\<lambda>(d, e). pruning_cell elements devices mats d e)
        (List.product [0..<length devices] [0..<length elements]) ?st) e d = False"
      by (simp add: prune_product)
    from pruning_cells_False_forbidden [OF this] show ?thesis
    proof
      assume "fst ?st e d = False"
      then have "\<not> initial_element_device_access (length elements) (length devices) (length users) mats e d"
        by simp
      from 1 [OF this] show ?thesis by blast
    next
      assume "\<exists>n. forbid e d n \<in> set (snd (fold (\<lambda>(d, e). pruning_cell elements devices mats d e)
        (List.product [0..<length devices] [0..<length elements]) ?st))"
      then show ?thesis using build_model_constrs [OF assms(1)] by (auto simp add: prune_product)
    qed
  qed
  from 1 2 show ?thesis by blast
qed

section \<open>Privacy of the returned mapping\<close>

lemma x_items_member:
  assumes "item \<in> set (dict_items slot (map (\<lambda>(e, d). ((e, d), X e d)) (x_keys num_elements num_devices)))"
  shows "\<exists>e d. item = ((e, d), X e d) \<and> e < num_elements \<and> d < num_devices"
  using assms by (auto simp add: x_keys_def)

lemma assigned_to_member:
  assumes "e' \<in> set (assigned_to value devices
             (dict_items slot (map (\<lambda>(e, d). ((e, d), X e d)) (x_keys num_elements (length devices))))
             (devices ! d))"
    and "distinct devices" and "d < length devices"
  shows "e' < num_elements \<and> value (X e' d) = 1"
proof -
  from assms(1) have "\<exists>item.
      item \<in> set (dict_items slot (map (\<lambda>(e, d). ((e, d), X e d)) (x_keys num_elements (length devices)))) \<and>
      value (snd item) = 1 \<and> devices ! snd (fst item) = devices ! d \<and> e' = fst (fst item)"
    unfolding assigned_to_def set_map set_filter by blast
  then obtain item where
    item: "item \<in> set (dict_items slot (map (\<lambda>(e, d). ((e, d), X e d)) (x_keys num_elements (length devices))))"
    and v: "value (snd item) = 1" and dv: "devices ! snd (fst item) = devices ! d" and e': "e' = fst (fst item)"
    by blast
  from x_items_member [OF item] obtain e0 d0 where
    i: "item = ((e0, d0), X e0 d0)" "e0 < num_elements" "d0 < length devices" by blast
  from dv i assms(2,3) have "d0 = d" by (simp add: nth_eq_iff_index_eq)
  with v i e' show ?thesis by simp
qed

lemma nth_name_after_fill:
  assumes "map forget_size els' = map forget_size els" and "i < length els"
  shows "element.name (els' ! i) = element.name (els ! i)"
proof -
  from assms(1) have len: "length els' = length els" by (metis length_map)
  from assms have "forget_size (els' ! i) = forget_size (els ! i)"
    by (metis len nth_map)
  then have "element.name (forget_size (els' ! i)) = element.name (forget_size (els ! i))" by simp
  then show ?thesis by (simp add: name_forget_size)
qed

lemma never_assigned:
  assumes "els = sort_key element.name elements" and "devs = sort_key device.name devices"
    and "us = sort_key user.name users"
    and "pre_process_objects env els devs us = Inr mats"
    and "build_model els devs us mats = Inr m"
    and "e < length els" and "d < length devs"
    and "fst (solve env m) = OPTIMAL \<longrightarrow> snd (solve env m) (X e d) \<noteq> 1"
    and "distinct (map element.name els)" and "distinct devs"
  shows "\<exists>out t l. returned (optimize env elements devices users) = Inr (out, t) \<and>
           map_of out (devs ! d) = Some l \<and> element.name (els ! e) \<notin> element.name ` set l"
proof -
  have ne: "elements \<noteq> []" "devices \<noteq> []" using assms(1,2,6,7) by auto
  have key: "devs ! d \<in> set devs" using assms(7) by simp
  have empty: "map_of (resolve els (empty_output devs)) (devs ! d) = Some []"
    using key by (simp add: map_of_resolve map_of_empty_output)
  show ?thesis
  proof (cases "users = [] \<or> fst (solve env m) \<noteq> OPTIMAL")
    case True
    then have "\<exists>t. returned (optimize env elements devices users) = Inr (resolve els (empty_output devs), t)"
    proof (cases "users = []")
      case True
      then show ?thesis using returned_degenerate [of elements devices users env]
        by (simp add: assms(1,2))
    next
      case False
      with True have "fst (solve env m) \<noteq> OPTIMAL" by simp
      from returned_not_optimal [OF ne False assms(4,5) [unfolded assms(1,2,3)] this]
      show ?thesis by (simp add: assms(1,2))
    qed
    with empty show ?thesis by fastforce
  next
    case False
    then have u: "users \<noteq> []" and opt: "fst (solve env m) = OPTIMAL" by simp_all
    obtain "value" where sv: "solve env m = (OPTIMAL, value)"
      using opt by (cases "solve env m") simp
    let ?items = "dict_items (key_slot env)
            (map (\<lambda>(e, d). ((e, d), X e d)) (x_keys (length els) (length devs)))"
    have "\<forall>item\<in>set ?items. devs ! snd (fst item) \<in> fst ` set (empty_output devs)"
    proof
      fix item assume "item \<in> set ?items"
      from x_items_member [OF this] obtain e0 d0 where "item = ((e0, d0), X e0 d0)" "d0 < length devs"
        by blast
      moreover have "fst ` set (empty_output devs) = set devs"
        by (rule keys_empty_output)
      ultimately show "devs ! snd (fst item) \<in> fst ` set (empty_output devs)" by simp
    qed
    from fill_output_total [OF this] obtain els' out' where
      fill: "for_each ?items (fill_cell value devs) (els, empty_output devs) = Inr (els', out')"
      by blast
    from returned_optimal [OF ne u assms(4,5) [unfolded assms(1,2,3)] sv fill [unfolded assms(1,2)]]
    have ret: "returned (optimize env elements devices users) =
                 Inr (resolve els' out', end_time env - start_time env)" by simp
    have out': "map_of out' (devs ! d) = Some (assigned_to value devs ?items (devs ! d))"
      using fill_output_map_of [OF fill, of "devs ! d"] key by (simp add: map_of_empty_output)
    let ?l = "map (\<lambda>e. els' ! e) (assigned_to value devs ?items (devs ! d))"
    have l: "map_of (resolve els' out') (devs ! d) = Some ?l"
      by (simp add: map_of_resolve out')
    have "element.name (els ! e) \<notin> element.name ` set ?l"
    proof
      assume "element.name (els ! e) \<in> element.name ` set ?l"
      then obtain e' where e': "e' \<in> set (assigned_to value devs ?items (devs ! d))"
        and n: "element.name (els ! e) = element.name (els' ! e')" by auto
      from assigned_to_member [OF e' assms(10,7)] have lt: "e' < length els" and v: "value (X e' d) = 1"
        by simp_all
      from assms(8) opt sv have "value (X e d) \<noteq> 1" by simp
      with v have "e' \<noteq> e" by auto
      from nth_name_after_fill [OF fill_output_elements [OF fill] lt] n
      have "map element.name els ! e = map element.name els ! e'" using lt assms(6) by simp
      with nth_eq_iff_index_eq [OF assms(9), of e e'] lt assms(6) have "e = e'" by simp
      with \<open>e' \<noteq> e\<close> show False by simp
    qed
    with ret l show ?thesis by blast
  qed
qed

lemma distinct_map_sort_key: "distinct (map f (sort_key g xs)) \<longleftrightarrow> distinct (map f xs)"
proof -
  have "mset (map f (sort_key g xs)) = mset (map f xs)" by simp
  then show ?thesis by (rule mset_eq_imp_distinct_iff)
qed

text \<open>
  C1. For an element \<open>e\<close> and a device \<open>d\<close> of the sorted lists, the model builder
  computes \<^verbatim>\<open>element_device_access[e, d]\<close> as true exactly when some user has access
  to the device and to the element; when no user has, the constraint \<open>x[e, d] = 0\<close> named
  \<^verbatim>\<open>privacy_...\<close> is in the model, and the mapping that \<open>optimize\<close> returns does not
  list the element under the device. The solver is taken to give feasible values when it
  reports optimal, and names are taken to be unique keys.
\<close>

theorem privacy_respected:
  assumes "els = sort_key element.name elements" and "devs = sort_key device.name devices"
    and "us = sort_key user.name users"
    and "pre_process_objects env els devs us = Inr mats"
    and "build_model els devs us mats = Inr m"
    and "fst (solve env m) = OPTIMAL \<longrightarrow> feasible m (snd (solve env m))"
    and "distinct (map element.name elements)" and "distinct (map device.name devices)"
    and "e < length els" and "d < length devs"
  shows "(initial_element_device_access (length els) (length devs) (length us) mats e d \<longleftrightarrow>
           (\<exists>u<length us. user_device_access mats u d \<and> user_element_access mats u e)) \<and>
         (\<not> (\<exists>u<length us. user_device_access mats u d \<and> user_element_access mats u e) \<longrightarrow>
            forbid e d (privacy_name els devs e d) \<in> set (constrs m) \<and>
            (\<exists>out t l. returned (optimize env elements devices users) = Inr (out, t) \<and>
               map_of out (devs ! d) = Some l \<and> element.name (els ! e) \<notin> element.name ` set l))"
proof -
  have iff: "initial_element_device_access (length els) (length devs) (length us) mats e d \<longleftrightarrow>
           (\<exists>u<length us. user_device_access mats u d \<and> user_element_access mats u e)"
    using assms(9,10) by (rule initial_element_device_access_iff)
  have "forbid e d (privacy_name els devs e d) \<in> set (constrs m) \<and>
            (\<exists>out t l. returned (optimize env elements devices users) = Inr (out, t) \<and>
               map_of out (devs ! d) = Some l \<and> element.name (els ! e) \<notin> element.name ` set l)"
    if no: "\<not> (\<exists>u<length us. user_device_access mats u d \<and> user_element_access mats u e)"
  proof -
    from no iff have "\<not> initial_element_device_access (length els) (length devs) (length us) mats e d"
      by simp
    with privacy_in_model [OF assms(5,9,10)]
    have c: "forbid e d (privacy_name els devs e d) \<in> set (constrs m)" by simp
    have x: "fst (solve env m) = OPTIMAL \<longrightarrow> snd (solve env m) (X e d) \<noteq> 1"
    proof
      assume "fst (solve env m) = OPTIMAL"
      with assms(6) have "feasible m (snd (solve env m))" by simp
      from forbid_feasible [OF this c] show "snd (solve env m) (X e d) \<noteq> 1" by simp
    qed
    have de: "distinct (map element.name els)"
      using assms(7) by (simp add: assms(1) distinct_map_sort_key)
    have "distinct (map device.name devs)"
      using assms(8) by (simp add: assms(2) distinct_map_sort_key)
    then have dd: "distinct devs" by (simp add: distinct_map)
    from never_assigned [OF assms(1,2,3,4,5,9,10) x de dd] c show ?thesis by simp
  qed
  with iff show ?thesis by blast
qed

theorem privacy_respected_witness:
  "\<not> initial_element_device_access 2 2 2 office_matrices 1 0 \<and>
   forbid 1 0 ''privacy_minutes_desk'' \<in> set (constrs office_model) \<and>
   (\<exists>out t l. returned (optimize office [minutes, calendar] [wall, desk] [bob, alice]) = Inr (out, t) \<and>
      map_of out desk = Some l \<and> ''minutes'' \<notin> element.name ` set l)"
proof -
  have no: "\<not> initial_element_device_access 2 2 2 office_matrices 1 0" by code_simp
  have 1: "[calendar, minutes] = sort_key element.name [minutes, calendar]"
    "[desk, wall] = sort_key device.name [wall, desk]"
    "[alice, bob] = sort_key user.name [bob, alice]"
    by (simp_all only: office_sorted)
  have 2: "fst (solve office office_model) = OPTIMAL \<longrightarrow> feasible office_model (snd (solve office office_model))"
    by (simp add: office_def checking_solver_def)
  have 3: "distinct (map element.name [minutes, calendar])" "distinct (map device.name [wall, desk])"
    by (simp_all add: minutes_def calendar_def wall_def desk_def)
  have 4: "1 < length [calendar, minutes]" "0 < length [desk, wall]" by simp_all
  have n: "privacy_name [calendar, minutes] [desk, wall] 1 0 = ''privacy_minutes_desk''"
    by (simp add: privacy_name_def minutes_def desk_def)
  have nm: "element.name ([calendar, minutes] ! 1) = ''minutes''" by (simp add: minutes_def)
  have dv: "[desk, wall] ! 0 = desk" by simp
  have len: "length [calendar, minutes] = 2" "length [desk, wall] = 2" "length [alice, bob] = 2"
    by simp_all
  note claim = privacy_respected [OF 1 office_matrices_returned office_model_built 2 3 4, unfolded len n nm dv]
  from claim no have "\<not> (\<exists>u<2. user_device_access office_matrices u 0 \<and>
                                user_element_access office_matrices u 1)"
    by blast
  with claim have "forbid 1 0 ''privacy_minutes_desk'' \<in> set (constrs office_model) \<and>
     (\<exists>out t l. returned (optimize office [minutes, calendar] [wall, desk] [bob, alice]) = Inr (out, t) \<and>
        map_of out desk = Some l \<and> ''minutes'' \<notin> element.name ` set l)"
    by blast
  with no show ?thesis by blast
qed


section \<open>The order of the returned lists\<close>

lemma sort_key_constant: "sort_key (\<lambda>x. c) xs = xs"
  by (induction xs) (simp_all add: insort_key_left_comm insort_is_Cons)

lemma sorted_map_fst_product:
  "sorted xs \<Longrightarrow> sorted (map fst (List.product xs ys))"
proof (induction xs)
  case Nil
  then show ?case by simp
next
  case (Cons x xs)
  have "map fst (map (Pair x) ys) = replicate (length ys) x" by (induction ys) simp_all
  with Cons show ?case by (auto simp add: sorted_append)
qed

lemma sorted_assigned_to_insertion_order:
  "sorted (assigned_to value devices
             (dict_items (\<lambda>k. 0) (map (\<lambda>(e, d). ((e, d), X e d)) (x_keys num_elements num_devices))) dv)"
proof -
  let ?items = "map (\<lambda>(e, d). ((e, d), X e d)) (x_keys num_elements num_devices)"
  have "map (\<lambda>item. fst (fst item)) ?items = map fst (x_keys num_elements num_devices)"
    by (simp add: case_prod_unfold comp_def)
  moreover have "sorted (map fst (x_keys num_elements num_devices))"
    unfolding x_keys_def by (rule sorted_map_fst_product) simp
  ultimately have "sorted (map (\<lambda>item. fst (fst item)) ?items)"
    by (simp only:)
  then show ?thesis
    unfolding assigned_to_def dict_items_def sort_key_constant by (rule sorted_filter)
qed

lemma sorted_names_of_positions:
  assumes "sorted (map element.name els)" and "sorted idxs" and "\<forall>i\<in>set idxs. i < length els"
    and "map forget_size els' = map forget_size els"
  shows "sorted (map element.name (map (\<lambda>e. els' ! e) idxs))"
  using assms(2,3)
proof (induction idxs)
  case Nil
  then show ?case by simp
next
  case (Cons i idxs)
  have "element.name (els' ! i) \<le> element.name (els' ! j)" if "j \<in> set idxs" for j
  proof -
    from Cons.prems that have ij: "i \<le> j" "j < length els" "i < length els" by auto
    from assms(1) ij have "map element.name els ! i \<le> map element.name els ! j"
      by (intro sorted_nth_mono) simp_all
    with ij nth_name_after_fill [OF assms(4)] show ?thesis by simp
  qed
  with Cons show ?case by auto
qed

lemma assigned_to_iff:
  assumes "distinct devices" and "d < length devices"
  shows "e \<in> set (assigned_to value devices
             (dict_items slot (map (\<lambda>(e, d). ((e, d), X e d)) (x_keys num_elements (length devices))))
             (devices ! d)) \<longleftrightarrow> e < num_elements \<and> value (X e d) = 1"
proof
  assume "e \<in> set (assigned_to value devices
             (dict_items slot (map (\<lambda>(e, d). ((e, d), X e d)) (x_keys num_elements (length devices))))
             (devices ! d))"
  from assigned_to_member [OF this assms] show "e < num_elements \<and> value (X e d) = 1" .
next
  assume a: "e < num_elements \<and> value (X e d) = 1"
  then have "((e, d), X e d) \<in> set (dict_items slot
      (map (\<lambda>(e, d). ((e, d), X e d)) (x_keys num_elements (length devices))))"
    using assms(2) by (auto simp add: x_keys_def)
  with a show "e \<in> set (assigned_to value devices
             (dict_items slot (map (\<lambda>(e, d). ((e, d), X e d)) (x_keys num_elements (length devices))))
             (devices ! d))"
    unfolding assigned_to_def set_map set_filter by force
qed

lemma has_size_record_size:
  "e < length els \<Longrightarrow> has_size (els[e := record_size n s (els ! e)]) e n s"
  by (simp add: has_size_def record_size_def update_conv')

lemma has_size_record_other_name:
  "has_size els e n s \<Longrightarrow> n' \<noteq> n \<Longrightarrow> has_size (els[e := record_size n' s' (els ! e)]) e n s"
  by (auto simp add: has_size_def record_size_def update_conv' split: option.splits)

lemma has_size_other_element:
  "has_size els e n s \<Longrightarrow> e' \<noteq> e \<Longrightarrow> has_size (els[e' := x]) e n s"
  by (simp add: has_size_def)

lemma fill_cell_keeps_size:
  assumes "fill_cell value devices ((e', d'), v) (els, out) = Inr (els1, out1)"
    and "has_size els e n s"
    and "e' = e \<and> value v = 1 \<and> device.name (devices ! d') = n \<longrightarrow> value (S e d') = s"
  shows "has_size els1 e n s"
proof -
  from assms(2) have lt: "e < length els" by (simp add: has_size_def)
  from fill_cell_cases [OF assms(1)] show ?thesis
  proof (elim disjE conjE exE)
    assume "els1 = els" then show ?thesis using assms(2) by simp
  next
    assume v: "value v = 1"
      and els1: "els1 = els[e' := record_size (device.name (devices ! d')) (value (S e' d')) (els ! e')]"
    show ?thesis
    proof (cases "e' = e")
      case False
      then show ?thesis unfolding els1 using assms(2) by (intro has_size_other_element)
    next
      case True
      show ?thesis
      proof (cases "device.name (devices ! d') = n")
        case False
        then show ?thesis unfolding els1 True using assms(2) by (intro has_size_record_other_name)
      next
        case n: True
        with True v assms(3) have "value (S e d') = s" by simp
        then show ?thesis unfolding els1 True n using lt by (simp add: has_size_record_size)
      qed
    qed
  qed
qed

lemma fill_output_keeps_size:
  assumes "for_each items (fill_cell value devices) (els, out) = Inr (els', out')"
    and "has_size els e n s"
    and "\<forall>item\<in>set items. fst (fst item) = e \<and> value (snd item) = 1 \<and>
           device.name (devices ! snd (fst item)) = n \<longrightarrow> value (S e (snd (fst item))) = s"
  shows "has_size els' e n s"
  using assms
proof (induction items arbitrary: els out)
  case Nil
  then show ?case by simp
next
  case (Cons item rest)
  obtain e' d' v where item: "item = ((e', d'), v)" by (cases item) auto
  from Cons.prems(1) obtain els1 out1 where
    step: "fill_cell value devices ((e', d'), v) (els, out) = Inr (els1, out1)"
    and rest: "for_each rest (fill_cell value devices) (els1, out1) = Inr (els', out')"
    by (auto simp add: item bind_error_Inr_iff)
  have "e' = e \<and> value v = 1 \<and> device.name (devices ! d') = n \<longrightarrow> value (S e d') = s"
    using Cons.prems(3) by (simp add: item)
  from fill_cell_keeps_size [OF step Cons.prems(2) this] have "has_size els1 e n s" .
  moreover have "\<forall>item\<in>set rest. fst (fst item) = e \<and> value (snd item) = 1 \<and>
           device.name (devices ! snd (fst item)) = n \<longrightarrow> value (S e (snd (fst item))) = s"
    using Cons.prems(3) by simp
  ultimately show ?case using Cons.IH [OF rest] by blast
qed

lemma fill_output_records_size:
  assumes "for_each items (fill_cell value devices) (els, out) = Inr (els', out')"
    and "((e, d), v) \<in> set items" and "value v = 1" and "e < length els"
    and "\<forall>item\<in>set items. fst (fst item) = e \<and> value (snd item) = 1 \<and>
           device.name (devices ! snd (fst item)) = device.name (devices ! d) \<longrightarrow>
           value (S e (snd (fst item))) = value (S e d)"
  shows "has_size els' e (device.name (devices ! d)) (value (S e d))"
  using assms
proof (induction items arbitrary: els out)
  case Nil
  then show ?case by simp
next
  case (Cons item rest)
  obtain e' d' v' where item: "item = ((e', d'), v')" by (cases item) auto
  from Cons.prems(1) obtain els1 out1 where
    step: "fill_cell value devices ((e', d'), v') (els, out) = Inr (els1, out1)"
    and rest: "for_each rest (fill_cell value devices) (els1, out1) = Inr (els', out')"
    by (auto simp add: item bind_error_Inr_iff)
  have later: "\<forall>item\<in>set rest. fst (fst item) = e \<and> value (snd item) = 1 \<and>
           device.name (devices ! snd (fst item)) = device.name (devices ! d) \<longrightarrow>
           value (S e (snd (fst item))) = value (S e d)"
    using Cons.prems(5) by simp
  have len: "length els1 = length els"
    using fill_cell_cases [OF step] by auto
  show ?case
  proof (cases "item = ((e, d), v)")
    case True
    with item have eq: "e' = e" "d' = d" "v' = v" by simp_all
    from fill_cell_cases [OF step] Cons.prems(3) eq
    have "els1 = els[e := record_size (device.name (devices ! d)) (value (S e d)) (els ! e)]"
      by auto
    then have "has_size els1 e (device.name (devices ! d)) (value (S e d))"
      using Cons.prems(4) by (simp add: has_size_record_size)
    from fill_output_keeps_size [OF rest this later] show ?thesis .
  next
    case False
    with Cons.prems(2) have "((e, d), v) \<in> set rest" by simp
    from Cons.IH [OF rest this Cons.prems(3) _ later] Cons.prems(4) len show ?thesis by simp
  qed
qed

lemma optimal_fill:
  assumes "els = sort_key element.name elements" and "devs = sort_key device.name devices"
    and "us = sort_key user.name users"
    and "elements \<noteq> []" and "devices \<noteq> []" and "users \<noteq> []"
    and "pre_process_objects env els devs us = Inr mats"
    and "build_model els devs us mats = Inr m"
    and "solve env m = (OPTIMAL, value)"
  shows "\<exists>els' out'.
           for_each (dict_items (key_slot env)
                       (map (\<lambda>(e, d). ((e, d), X e d)) (x_keys (length els) (length devs))))
                    (fill_cell value devs) (els, empty_output devs) = Inr (els', out') \<and>
           returned (optimize env elements devices users) =
             Inr (resolve els' out', end_time env - start_time env) \<and>
           elements_after (optimize env elements devices users) = els'"
proof -
  let ?items = "dict_items (key_slot env)
            (map (\<lambda>(e, d). ((e, d), X e d)) (x_keys (length els) (length devs)))"
  have "\<forall>item\<in>set ?items. devs ! snd (fst item) \<in> fst ` set (empty_output devs)"
  proof
    fix item assume "item \<in> set ?items"
    from x_items_member [OF this] obtain e0 d0 where "item = ((e0, d0), X e0 d0)" "d0 < length devs"
      by blast
    then show "devs ! snd (fst item) \<in> fst ` set (empty_output devs)"
      by (simp add: keys_empty_output)
  qed
  from fill_output_total [OF this] obtain els' out' where
    fill: "for_each ?items (fill_cell value devs) (els, empty_output devs) = Inr (els', out')"
    by blast
  from returned_optimal [OF assms(4,5,6) assms(7,8) [unfolded assms(1,2,3)] assms(9) fill [unfolded assms(1,2)]]
    fill
  show ?thesis by blast
qed

lemma optimal_lists:
  assumes "els = sort_key element.name elements" and "devs = sort_key device.name devices"
    and "us = sort_key user.name users"
    and "elements \<noteq> []" and "devices \<noteq> []" and "users \<noteq> []"
    and "pre_process_objects env els devs us = Inr mats"
    and "build_model els devs us mats = Inr m"
    and "solve env m = (OPTIMAL, value)"
  shows "\<exists>els' out'.
           returned (optimize env elements devices users) =
             Inr (resolve els' out', end_time env - start_time env) \<and>
           elements_after (optimize env elements devices users) = els' \<and>
           map forget_size els' = map forget_size els \<and>
           fst ` set (resolve els' out') = set devices \<and>
           (\<forall>dv\<in>set devs. map_of (resolve els' out') dv =
              Some (map (\<lambda>e. els' ! e)
                (assigned_to value devs
                   (dict_items (key_slot env)
                      (map (\<lambda>(e, d). ((e, d), X e d)) (x_keys (length els) (length devs)))) dv)))"
proof -
  let ?items = "dict_items (key_slot env)
            (map (\<lambda>(e, d). ((e, d), X e d)) (x_keys (length els) (length devs)))"
  from optimal_fill [OF assms] obtain els' out' where
    fill: "for_each ?items (fill_cell value devs) (els, empty_output devs) = Inr (els', out')"
    and ret: "returned (optimize env elements devices users) =
               Inr (resolve els' out', end_time env - start_time env)"
    and after: "elements_after (optimize env elements devices users) = els'" by blast
  have keys: "fst ` set (resolve els' out') = set devices"
  proof -
    have "map fst (resolve els' out') = map fst (empty_output devs)"
      by (simp add: map_fst_resolve fill_output_keys [OF fill])
    then have "fst ` set (resolve els' out') = fst ` set (empty_output devs)" by (metis set_map)
    then show ?thesis by (simp add: keys_empty_output assms(2))
  qed
  have "map_of (resolve els' out') dv = Some (map (\<lambda>e. els' ! e) (assigned_to value devs ?items dv))"
    if "dv \<in> set devs" for dv
    using fill_output_map_of [OF fill, of dv] that by (simp add: map_of_resolve map_of_empty_output)
  with ret after keys fill_output_elements [OF fill] show ?thesis by blast
qed

text \<open>
  An element that the solver assigns to a device carries, when \<open>optimize\<close> returns, the
  solved size under the device's name.
\<close>

lemma optimal_sizes:
  assumes "els = sort_key element.name elements" and "devs = sort_key device.name devices"
    and "us = sort_key user.name users"
    and "elements \<noteq> []" and "devices \<noteq> []" and "users \<noteq> []"
    and "pre_process_objects env els devs us = Inr mats"
    and "build_model els devs us mats = Inr m"
    and "solve env m = (OPTIMAL, value)"
    and "distinct (map device.name devices)"
    and "e < length els" and "d < length devs" and "value (X e d) = 1"
  shows "has_size (elements_after (optimize env elements devices users)) e
           (device.name (devs ! d)) (value (S e d))"
proof -
  let ?items = "dict_items (key_slot env)
            (map (\<lambda>(e, d). ((e, d), X e d)) (x_keys (length els) (length devs)))"
  from optimal_fill [OF assms(1-9)] obtain els' out' where
    fill: "for_each ?items (fill_cell value devs) (els, empty_output devs) = Inr (els', out')"
    and after: "elements_after (optimize env elements devices users) = els'" by blast
  have dn: "distinct (map device.name devs)"
    using assms(10) by (simp add: assms(2) distinct_map_sort_key)
  have mem: "((e, d), X e d) \<in> set ?items"
    using assms(11,12) by (auto simp add: x_keys_def)
  have same: "\<forall>item\<in>set ?items. fst (fst item) = e \<and> value (snd item) = 1 \<and>
           device.name (devs ! snd (fst item)) = device.name (devs ! d) \<longrightarrow>
           value (S e (snd (fst item))) = value (S e d)"
  proof (intro ballI impI)
    fix item assume "item \<in> set ?items"
      and a: "fst (fst item) = e \<and> value (snd item) = 1 \<and>
           device.name (devs ! snd (fst item)) = device.name (devs ! d)"
    from x_items_member [OF this(1)] obtain e0 d0 where
      i: "item = ((e0, d0), X e0 d0)" "d0 < length devs" by blast
    with a have "map device.name devs ! d0 = map device.name devs ! d" using assms(12) by simp
    with nth_eq_iff_index_eq [OF dn, of d0 d] i(2) assms(12) have "d0 = d" by simp
    with i show "value (S e (snd (fst item))) = value (S e d)" by simp
  qed
  from fill_output_records_size [OF fill mem assms(13,11) same] show ?thesis by (simp add: after)
qed

lemma insertion_order_lists_sorted:
  assumes "els = sort_key element.name elements" and "devs = sort_key device.name devices"
    and "us = sort_key user.name users"
    and "elements \<noteq> []" and "devices \<noteq> []" and "users \<noteq> []"
    and "pre_process_objects env els devs us = Inr mats"
    and "build_model els devs us mats = Inr m"
    and "solve env m = (OPTIMAL, value)"
    and "key_slot env = (\<lambda>k. 0)"
    and "distinct devices" and "d < length devs"
    and "distinct (map element.name elements)"
  shows "\<exists>out t l. returned (optimize env elements devices users) = Inr (out, t) \<and>
           fst ` set out = set devices \<and> map_of out (devs ! d) = Some l \<and>
           sorted (map element.name l) \<and>
           (\<forall>e<length els. element.name (els ! e) \<in> element.name ` set l \<longrightarrow> value (X e d) = 1) \<and>
           (\<forall>e<length els. value (X e d) = 1 \<longrightarrow> element.name (els ! e) \<in> element.name ` set l)"
proof -
  let ?items = "dict_items (key_slot env)
            (map (\<lambda>(e, d). ((e, d), X e d)) (x_keys (length els) (length devs)))"
  let ?idxs = "assigned_to value devs ?items (devs ! d)"
  from optimal_lists [OF assms(1-9)] obtain els' out' where
    ret: "returned (optimize env elements devices users) =
             Inr (resolve els' out', end_time env - start_time env)"
    and same: "map forget_size els' = map forget_size els"
    and keys: "fst ` set (resolve els' out') = set devices"
    and lists: "\<forall>dv\<in>set devs. map_of (resolve els' out') dv =
              Some (map (\<lambda>e. els' ! e) (assigned_to value devs ?items dv))"
    by blast
  have dd: "distinct devs" using assms(11) by (simp add: assms(2))
  have l: "map_of (resolve els' out') (devs ! d) = Some (map (\<lambda>e. els' ! e) ?idxs)"
    using lists assms(12) by simp
  have mem: "e \<in> set ?idxs \<longleftrightarrow> e < length els \<and> value (X e d) = 1" for e
    by (rule assigned_to_iff [OF dd assms(12)])
  have "sorted ?idxs"
    unfolding assms(10) by (rule sorted_assigned_to_insertion_order)
  moreover have "sorted (map element.name els)" by (simp add: assms(1))
  moreover have "\<forall>i\<in>set ?idxs. i < length els" using mem by simp
  ultimately have sorted: "sorted (map element.name (map (\<lambda>e. els' ! e) ?idxs))"
    using same by (intro sorted_names_of_positions)
  have name: "element.name (els' ! i) = element.name (els ! i)" if "i < length els" for i
    using nth_name_after_fill [OF same that] .
  have 2: "\<forall>e<length els. value (X e d) = 1 \<longrightarrow>
             element.name (els ! e) \<in> element.name ` set (map (\<lambda>e. els' ! e) ?idxs)"
  proof (intro allI impI)
    fix e assume "e < length els" "value (X e d) = 1"
    then have "e \<in> set ?idxs" using mem by simp
    then have "element.name (els' ! e) \<in> element.name ` set (map (\<lambda>e. els' ! e) ?idxs)" by simp
    with name [OF \<open>e < length els\<close>] show
      "element.name (els ! e) \<in> element.name ` set (map (\<lambda>e. els' ! e) ?idxs)" by simp
  qed
  have de: "distinct (map element.name els)"
    using assms(13) by (simp add: assms(1) distinct_map_sort_key)
  have 1: "\<forall>e<length els. element.name (els ! e) \<in> element.name ` set (map (\<lambda>e. els' ! e) ?idxs) \<longrightarrow>
             value (X e d) = 1"
  proof (intro allI impI)
    fix e assume e: "e < length els"
      and "element.name (els ! e) \<in> element.name ` set (map (\<lambda>e. els' ! e) ?idxs)"
    then obtain e' where e': "e' \<in> set ?idxs" and n: "element.name (els ! e) = element.name (els' ! e')"
      by auto
    from e' mem have lt: "e' < length els" and v: "value (X e' d) = 1" by simp_all
    from n name [OF lt] have "map element.name els ! e = map element.name els ! e'"
      using e lt by simp
    with nth_eq_iff_index_eq [OF de, of e e'] e lt have "e = e'" by simp
    with v show "value (X e d) = 1" by simp
  qed
  from ret keys l sorted 1 2 show ?thesis by blast
qed

text \<open>
  So a dict that enumerates its keys in insertion order gives lists in the order of the
  elements. The interpreter the code is written for does not.
\<close>

text \<open>
  C7, where the code departs from it. With a chart and a clock both assigned to the
  screen, and the keys of \<^verbatim>\<open>x\<close> enumerated as CPython 2.7 enumerates them, the list
  that \<open>optimize\<close> returns for the screen holds the clock before the chart: it is not
  in the order of the elements' names.
\<close>

theorem optimize_output_order_cpython2:
  "case returned (optimize cpython2 [chart, clock] [screen] [alice]) of
     Inl err \<Rightarrow> False
   | Inr (out, t) \<Rightarrow>
       map (map_prod device.name (map element.name)) out = [(''screen'', [''clock'', ''chart''])] \<and>
       \<not> sorted (map element.name (the (map_of out screen)))"
  by code_simp

end
